theory Spec2Isabelle
  imports Complex_Main "HOL-Library.Word"
begin

unbundle bit_operations_syntax

section \<open>Arc records (FastArc.h)\<close>

text \<open>
  A \<^verbatim>\<open>FastArc\<close> is one 32-bit word \<^verbatim>\<open>data\<close>: the low 30 bits hold the id of the
  other endpoint, bit 30 is the forward flag and bit 31 the backward flag.
\<close>

type_synonym FastArc = "32 word"

definition OtherVertexId :: "FastArc \<Rightarrow> 32 word" where
  "OtherVertexId d = d AND 0x3FFFFFFF"

definition Forward :: "FastArc \<Rightarrow> bool" where
  "Forward d = (d AND 0x40000000 = 0x40000000)"

definition Backward :: "FastArc \<Rightarrow> bool" where
  "Backward d = (d AND 0x80000000 = 0x80000000)"

definition Valid :: "FastArc \<Rightarrow> bool" where
  "Valid d = (d AND 0xC0000000 \<noteq> 0)"

definition SetOtherVertexId :: "32 word \<Rightarrow> FastArc \<Rightarrow> FastArc" where
  "SetOtherVertexId v d = (d AND 0xC0000000) OR (v AND 0x3FFFFFFF)"

definition SetForwardFlag :: "FastArc \<Rightarrow> FastArc" where
  "SetForwardFlag d = d OR 0x40000000"

definition SetBackwardFlag :: "FastArc \<Rightarrow> FastArc" where
  "SetBackwardFlag d = d OR 0x80000000"

text \<open>
  \<^verbatim>\<open>FastArc::operator<\<close>.  The two local integers \<^verbatim>\<open>a\<close> and \<^verbatim>\<open>b\<close> start at 0 and are
  overwritten by the two \<^verbatim>\<open>if\<close> statements in the order of the source; the two
  \<^verbatim>\<open>Assert\<close>s of the operator ask for \<^const>\<open>Valid\<close> operands.
\<close>

definition direction_bucket :: "FastArc \<Rightarrow> int" where
  "direction_bucket d =
     (let a = 0;
          a = (if Forward d \<and> Backward d then 1 else a);
          a = (if \<not> Forward d \<and> Backward d then 2 else a)
      in a)"

definition arc_less :: "FastArc \<Rightarrow> FastArc \<Rightarrow> bool" where
  "arc_less x y =
     (let a = direction_bucket x; b = direction_bucket y
      in if a = b then OtherVertexId x < OtherVertexId y else a < b)"

text \<open>A block of arcs is sorted when no later arc is smaller than an earlier one.\<close>

definition sorted_block :: "FastArc list \<Rightarrow> bool" where
  "sorted_block as = sorted_wrt (\<lambda>x y. \<not> arc_less y x) as"

section \<open>Failures of the program\<close>

text \<open>
  The source aborts on a failed \<^verbatim>\<open>Assert\<close> (when assertions are compiled in), and it
  reads or writes outside a container or divides by zero without a check of its own.
  Each of these is a value of the model.
\<close>

datatype error = Assertion_failed | Out_of_bounds | Division_by_zero

text \<open>
  \<^verbatim>\<open>Assert(c)\<close>: the header that defines the macro is not part of the sources at hand, so
  whether assertions are compiled in is the parameter \<open>dbg\<close> of every function that has
  one.
\<close>

definition Assert :: "bool \<Rightarrow> bool \<Rightarrow> error + unit" where
  "Assert dbg c = (if dbg \<and> \<not> c then Inl Assertion_failed else Inr ())"

text \<open>Reading \<^verbatim>\<open>xs[i]\<close> from a \<^verbatim>\<open>vector\<close> or an \<^verbatim>\<open>array\<close>.\<close>

definition elem_at :: "'a list \<Rightarrow> nat \<Rightarrow> error + 'a" where
  "elem_at xs i = (if i < length xs then Inr (xs ! i) else Inl Out_of_bounds)"

section \<open>The instances of the independent-cascade model (SKIM.h, RSInfluenceOracle.h)\<close>

text \<open>\<^verbatim>\<open>_rotl(x, r)\<close> on 32 bits, for \<open>0 < r < 32\<close>.\<close>

definition rotl32 :: "32 word \<Rightarrow> nat \<Rightarrow> 32 word" where
  "rotl32 x r = push_bit r x OR drop_bit (32 - r) x"

text \<open>
  \<^verbatim>\<open>Murmur3Hash(u, v, i, l)\<close>; the same text in both classes.  The statements of the
  source are the successive bindings of \<open>k\<close> and \<open>h\<close>.
\<close>

definition murmur_key :: "32 word \<Rightarrow> 32 word" where
  "murmur_key x =
     (let k = x;
          k = k * 0xcc9e2d51;
          k = rotl32 k 15;
          k = k * 0x1b873593
      in k)"

definition murmur_round :: "32 word \<Rightarrow> 32 word \<Rightarrow> 32 word" where
  "murmur_round h x =
     (let h = h XOR murmur_key x;
          h = rotl32 h 13;
          h = h * 5 + 0xe6546b64
      in h)"

definition Murmur3Hash :: "32 word \<Rightarrow> 32 word \<Rightarrow> 32 word \<Rightarrow> 16 word \<Rightarrow> 16 word \<Rightarrow> 32 word" where
  "Murmur3Hash randomSeed u v i l =
     (let h = push_bit 16 randomSeed + ucast l;
          h = murmur_round h u;
          h = murmur_round h v;
          h = h XOR murmur_key (ucast i);
          h = h XOR 10;
          h = h XOR drop_bit 16 h;
          h = h * 0x85ebca6b;
          h = h XOR drop_bit 13 h;
          h = h * 0xc2b2ae35;
          h = h XOR drop_bit 16 h
      in h)"

definition resolution :: "32 word" where
  "resolution = 3000000"

definition triprob :: "32 word list" where
  "triprob = [resolution div 10, resolution div 100, resolution div 1000]"

text \<open>
  \<^verbatim>\<open>Contained<WEIGHTED>\<close> and \<^verbatim>\<open>Contained<BINARY>\<close>, the same text in both classes.  The
  table \<open>indeg\<close> and the threshold \<open>binprob\<close> are members of the class.
\<close>

definition Contained_WEIGHTED ::
  "32 word \<Rightarrow> 32 word list \<Rightarrow> 32 word \<Rightarrow> 32 word \<Rightarrow> 16 word \<Rightarrow> 16 word \<Rightarrow> error + bool" where
  "Contained_WEIGHTED randomSeed indeg u v i l =
     (case elem_at indeg (unat v) of
        Inl e \<Rightarrow> Inl e
      | Inr d \<Rightarrow>
          if d = 0 then Inl Division_by_zero
          else let prob = min resolution (resolution div d)
               in Inr (Murmur3Hash randomSeed u v i l mod resolution < prob))"

definition Contained_BINARY ::
  "32 word \<Rightarrow> 32 word \<Rightarrow> 32 word \<Rightarrow> 32 word \<Rightarrow> 16 word \<Rightarrow> 16 word \<Rightarrow> error + bool" where
  "Contained_BINARY randomSeed binprob u v i l =
     Inr (Murmur3Hash randomSeed u v i l mod resolution < binprob)"

text \<open>\<^verbatim>\<open>SKIM::Contained<TRIVALENCY>\<close>: the threshold is \<^verbatim>\<open>triprob[index]\<close>.\<close>

definition SKIM_Contained_TRIVALENCY ::
  "32 word \<Rightarrow> 32 word \<Rightarrow> 32 word \<Rightarrow> 16 word \<Rightarrow> 16 word \<Rightarrow> error + bool" where
  "SKIM_Contained_TRIVALENCY randomSeed u v i l =
     (let index = Murmur3Hash randomSeed u v i l mod of_nat (length triprob)
      in case elem_at triprob (unat index) of
           Inl e \<Rightarrow> Inl e
         | Inr p \<Rightarrow> Inr (Murmur3Hash randomSeed u v i l mod resolution < p))"

text \<open>
  \<^verbatim>\<open>FastRSInfluenceOracle::Contained<TRIVALENCY>\<close>: \<^verbatim>\<open>index\<close> is computed and not used;
  the threshold is \<^verbatim>\<open>triprob[i]\<close>, with the instance \<open>i\<close> as the index.
\<close>

definition Oracle_Contained_TRIVALENCY ::
  "32 word \<Rightarrow> 32 word \<Rightarrow> 32 word \<Rightarrow> 16 word \<Rightarrow> 16 word \<Rightarrow> error + bool" where
  "Oracle_Contained_TRIVALENCY randomSeed u v i l =
     (let index = Murmur3Hash randomSeed u v i l mod of_nat (length triprob)
      in case elem_at triprob (unat i) of
           Inl e \<Rightarrow> Inl e
         | Inr p \<Rightarrow> Inr (Murmur3Hash randomSeed u v i l mod resolution < p))"

section \<open>The static graph (FastStaticGraph.h)\<close>

text \<open>
  The header, the array of vertices (each vertex is its \<^verbatim>\<open>FirstArcId\<close>; entry \<open>n\<close> is
  the sentinel) and the array of arcs.  The arcs of vertex \<open>v\<close> are the entries
  \<^verbatim>\<open>vertices[v].FirstArcId() .. vertices[v+1].FirstArcId() - 1\<close> of the arc array.
\<close>

record FastStaticGraph =
  NumVertices :: nat
  NumArcs :: nat
  IsDirected :: bool
  Vertices :: "nat list"
  Arcs :: "FastArc list"

definition incident_arcs :: "FastStaticGraph \<Rightarrow> nat \<Rightarrow> FastArc list" where
  "incident_arcs g v =
     take (Vertices g ! (v + 1) - Vertices g ! v) (drop (Vertices g ! v) (Arcs g))"

text \<open>
  The iteration macros come from a header (\<^verbatim>\<open>Macros.h\<close>) that is not part of the sources
  at hand.  \<^verbatim>\<open>FORALL_INCIDENT_ARCS\<close> walks the block of a vertex from \<^verbatim>\<open>GetFirstArc\<close> up
  to \<^verbatim>\<open>GetLastArc\<close>; \<^verbatim>\<open>FORALL_INCIDENT_ARCS_BACKWARD\<close> walks it from \<^verbatim>\<open>GetLastArc\<close> down
  to \<^verbatim>\<open>GetFirstArc\<close>.  Each is the list of arcs in the order of the walk.
\<close>

definition FORALL_INCIDENT_ARCS :: "FastStaticGraph \<Rightarrow> nat \<Rightarrow> FastArc list" where
  "FORALL_INCIDENT_ARCS g v = incident_arcs g v"

definition FORALL_INCIDENT_ARCS_BACKWARD :: "FastStaticGraph \<Rightarrow> nat \<Rightarrow> FastArc list" where
  "FORALL_INCIDENT_ARCS_BACKWARD g v = rev (incident_arcs g v)"

text \<open>
  The arc expansion of the searches: \<^verbatim>\<open>if (!a->Forward()) break;\<close> in the forward
  searches, \<^verbatim>\<open>if (!a->Backward()) break;\<close> in the reverse ones.  The arcs that the body of
  the loop sees are those before the first arc without the flag.
\<close>

definition forward_scan :: "FastStaticGraph \<Rightarrow> nat \<Rightarrow> FastArc list" where
  "forward_scan g v = takeWhile Forward (FORALL_INCIDENT_ARCS g v)"

definition backward_scan :: "FastStaticGraph \<Rightarrow> nat \<Rightarrow> FastArc list" where
  "backward_scan g v = takeWhile Backward (FORALL_INCIDENT_ARCS_BACKWARD g v)"

section \<open>The seed sampler (RSInfluenceOracle.h)\<close>

text \<open>
  \<^verbatim>\<open>GenerateSeetSet\<close> with the method \<^verbatim>\<open>UNIFORM\<close>:
  \<^verbatim>\<open>for (uint32_t i = 0; i < N; ++i) S.push_back(dist(twisty));\<close>
  The generator and the distribution belong to the C++ library.  The sequence of values that
  the successive calls \<^verbatim>\<open>dist(twisty)\<close> return is the parameter \<open>draw\<close>, and the state of
  the generator is the number \<open>pos\<close> of values drawn so far.  \<open>N\<close> is a 64-bit value
  and the counter \<open>i\<close> has 32 bits: from \<open>N = 2 ^ 32\<close> on the counter wraps around
  before it reaches \<open>N\<close> and the loop does not end, which is the result \<open>None\<close>.
\<close>

fun UNIFORM_loop :: "(nat \<Rightarrow> 32 word) \<Rightarrow> nat \<Rightarrow> 32 word list \<Rightarrow> nat \<Rightarrow> 32 word list \<times> nat" where
  "UNIFORM_loop draw 0 S pos = (S, pos)"
| "UNIFORM_loop draw (Suc c) S pos = UNIFORM_loop draw c (S @ [draw pos]) (Suc pos)"

definition GenerateSeetSet_UNIFORM ::
  "(nat \<Rightarrow> 32 word) \<Rightarrow> 32 word list \<Rightarrow> nat \<Rightarrow> nat \<Rightarrow> (32 word list \<times> nat) option" where
  "GenerateSeetSet_UNIFORM draw S N pos =
     (if N < 2 ^ 32 then Some (UNIFORM_loop draw N S pos) else None)"

section \<open>The estimator (RSInfluenceOracle.h)\<close>

text \<open>
  Ranks and thresholds are 64-bit unsigned values; the model has them as natural numbers.
  An entry of the buffers \<^verbatim>\<open>sourceZ\<close> and \<^verbatim>\<open>destZ\<close> is a pair of a rank and a threshold.
\<close>

type_synonym zentry = "nat \<times> nat"

text \<open>
  The entries of one seed: \<^verbatim>\<open>num\<close> and \<^verbatim>\<open>tau\<close> of the source, then the pairs
  \<^verbatim>\<open>(sketch[i], tau)\<close> for \<open>i < num\<close>.  With \<open>k = 0\<close> and an empty sketch the source
  takes \<^verbatim>\<open>back()\<close> of an empty vector.
\<close>

definition sketch_entries :: "nat \<Rightarrow> nat \<Rightarrow> nat list \<Rightarrow> error + zentry list" where
  "sketch_entries k nl sketch =
     (if length sketch = k
      then (if sketch = [] then Inl Out_of_bounds
            else let num = length sketch - 1; tau = last sketch
                 in Inr (map (\<lambda>r. (r, tau)) (take num sketch)))
      else let num = length sketch; tau = nl
           in Inr (map (\<lambda>r. (r, tau)) (take num sketch)))"

text \<open>The loop \<^verbatim>\<open>for (const uint32_t s : S)\<close> that fills \<^verbatim>\<open>sourceZ\<close> and \<^verbatim>\<open>sourceI\<close>.\<close>

fun collect ::
  "nat \<Rightarrow> nat \<Rightarrow> nat list list \<Rightarrow> nat list \<Rightarrow> zentry list \<Rightarrow> nat list
     \<Rightarrow> error + (zentry list \<times> nat list)" where
  "collect k nl sketches [] sourceZ sourceI = Inr (sourceZ, sourceI)"
| "collect k nl sketches (s # S) sourceZ sourceI =
     (case elem_at sketches s of
        Inl e \<Rightarrow> Inl e
      | Inr sketch \<Rightarrow>
          (case sketch_entries k nl sketch of
             Inl e \<Rightarrow> Inl e
           | Inr es \<Rightarrow>
               collect k nl sketches S (sourceZ @ es @ [(nl, 0)])
                 (sourceI @ [length sourceZ])))"

text \<open>
  The loop \<^verbatim>\<open>while (true)\<close> that merges two chunks of \<^verbatim>\<open>sourceZ\<close>.  \<open>first1\<close> and
  \<open>first2\<close> are the positions of the two iterators; the loop does not compare them with
  the ends of the chunks and relies on the sentinel entries.  Reading past the end of the
  buffer is the error \<^const>\<open>Out_of_bounds\<close>.
\<close>

function merge_loop ::
  "nat \<Rightarrow> zentry list \<Rightarrow> nat \<Rightarrow> nat \<Rightarrow> zentry list \<Rightarrow> error + zentry list" where
  "merge_loop sentinelRank sourceZ first1 first2 destZ =
     (if first1 < length sourceZ \<and> first2 < length sourceZ
      then
        if fst (sourceZ ! first1) < fst (sourceZ ! first2)
        then merge_loop sentinelRank sourceZ (first1 + 1) first2 (destZ @ [sourceZ ! first1])
        else if fst (sourceZ ! first2) < fst (sourceZ ! first1)
        then merge_loop sentinelRank sourceZ first1 (first2 + 1) (destZ @ [sourceZ ! first2])
        else if snd (sourceZ ! first1) > snd (sourceZ ! first2)
        then merge_loop sentinelRank sourceZ (first1 + 1) (first2 + 1)
               (destZ @ [sourceZ ! first1])
        else if fst (sourceZ ! first1) = sentinelRank
        then Inr (destZ @ [sourceZ ! first2])
        else merge_loop sentinelRank sourceZ (first1 + 1) (first2 + 1)
               (destZ @ [sourceZ ! first2])
      else Inl Out_of_bounds)"
  by pat_completeness auto
termination
  by (relation "measure (\<lambda>(s, Z, f1, f2, d). (length Z - f1) + (length Z - f2))") auto

declare merge_loop.simps [simp del]

text \<open>\<^verbatim>\<open>destZ.insert(destZ.end(), first1, last1)\<close>: the entries from \<open>first1\<close> up to \<open>last1\<close>.\<close>

definition copy_range :: "zentry list \<Rightarrow> nat \<Rightarrow> nat \<Rightarrow> error + zentry list" where
  "copy_range sourceZ first1 last1 =
     (if first1 \<le> last1 \<and> last1 \<le> length sourceZ
      then Inr (take (last1 - first1) (drop first1 sourceZ))
      else Inl Out_of_bounds)"

text \<open>
  The loop \<^verbatim>\<open>for (uint64_t i = 0; i < num; i += 2)\<close> of one round: chunk \<open>i\<close> is merged
  with chunk \<open>i + 1\<close>, and a last chunk without a partner is copied.
\<close>

function merge_chunks ::
  "bool \<Rightarrow> nat \<Rightarrow> zentry list \<Rightarrow> nat list \<Rightarrow> nat \<Rightarrow> nat \<Rightarrow> zentry list \<Rightarrow> nat list
     \<Rightarrow> error + (zentry list \<times> nat list)" where
  "merge_chunks dbg sentinelRank sourceZ sourceI num i destZ destI =
     (if i < num
      then
        let destI = destI @ [length destZ] in
        case elem_at sourceI i of
          Inl e \<Rightarrow> Inl e
        | Inr first1 \<Rightarrow>
        case elem_at sourceI (i + 1) of
          Inl e \<Rightarrow> Inl e
        | Inr last1 \<Rightarrow>
        if i + 1 = num
        then (case copy_range sourceZ first1 last1 of
                Inl e \<Rightarrow> Inl e
              | Inr c \<Rightarrow>
                  merge_chunks dbg sentinelRank sourceZ sourceI num (i + 2) (destZ @ c) destI)
        else
          case Assert dbg (i + 2 < num) of
            Inl e \<Rightarrow> Inl e
          | Inr _ \<Rightarrow>
          case elem_at sourceI (i + 2) of
            Inl e \<Rightarrow> Inl e
          | Inr last2 \<Rightarrow>
          case merge_loop sentinelRank sourceZ first1 last1 destZ of
            Inl e \<Rightarrow> Inl e
          | Inr destZ \<Rightarrow>
              merge_chunks dbg sentinelRank sourceZ sourceI num (i + 2) destZ destI
      else Inr (destZ, destI))"
  by pat_completeness auto
termination
  by (relation "measure (\<lambda>(dbg, s, Z, I, num, i, dZ, dI). num - i)") auto

declare merge_chunks.simps [simp del]

lemma merge_chunks_length:
  "merge_chunks dbg sentinelRank sourceZ sourceI num i destZ destI = Inr (Z', I')
     \<Longrightarrow> length I' = length destI + (num - i + 1) div 2"
proof (induction dbg sentinelRank sourceZ sourceI num i destZ destI
    rule: merge_chunks.induct)
  case (1 dbg sentinelRank sourceZ sourceI num i destZ destI)
  show ?case
  proof (cases "i < num")
    case False
    with "1.prems" show ?thesis by (simp add: merge_chunks.simps)
  next
    case True
    have step: "(num - i + 1) div 2 = 1 + (num - (i + 2) + 1) div 2"
      using True by (cases "i + 1 = num") (auto simp: Suc_diff_Suc)
    from True "1.prems" "1.IH" show ?thesis
      unfolding step
      by (subst (asm) merge_chunks.simps)
        (auto simp: Let_def split: sum.splits if_splits)
  qed
qed

text \<open>
  One round of the loop \<^verbatim>\<open>while (sourceI.size() > 2)\<close>: the merges, the final offset
  pushed to \<^verbatim>\<open>destI\<close>, and the swap of the buffers.  \<^verbatim>\<open>destZ\<close> and \<^verbatim>\<open>destI\<close> are empty on
  construction and are cleared at the end of every round, so every round starts with them
  empty.
\<close>

definition merge_round ::
  "bool \<Rightarrow> nat \<Rightarrow> zentry list \<Rightarrow> nat list \<Rightarrow> error + (zentry list \<times> nat list)" where
  "merge_round dbg sentinelRank sourceZ sourceI =
     (let num = length sourceI - 1 in
      case merge_chunks dbg sentinelRank sourceZ sourceI num 0 [] [] of
        Inl e \<Rightarrow> Inl e
      | Inr (destZ, destI) \<Rightarrow> Inr (destZ, destI @ [length destZ]))"

lemma merge_round_length:
  assumes "merge_round dbg sentinelRank sourceZ sourceI = Inr (Z', I')"
    and "2 < length sourceI"
  shows "length I' < length sourceI"
proof -
  from assms(1) obtain dI where
    "merge_chunks dbg sentinelRank sourceZ sourceI (length sourceI - 1) 0 [] [] = Inr (Z', dI)"
    and "I' = dI @ [length Z']"
    by (auto simp: merge_round_def Let_def split: sum.splits)
  with merge_chunks_length [of dbg sentinelRank sourceZ sourceI "length sourceI - 1" 0 "[]" "[]" Z' dI]
  have "length I' = (length sourceI - 1 + 1) div 2 + 1" by simp
  with assms(2) show ?thesis by simp
qed

function merge_rounds ::
  "bool \<Rightarrow> nat \<Rightarrow> zentry list \<Rightarrow> nat list \<Rightarrow> error + (zentry list \<times> nat list)" where
  "merge_rounds dbg sentinelRank sourceZ sourceI =
     (if 2 < length sourceI
      then (case merge_round dbg sentinelRank sourceZ sourceI of
              Inl e \<Rightarrow> Inl e
            | Inr (destZ, destI) \<Rightarrow> merge_rounds dbg sentinelRank destZ destI)
      else Inr (sourceZ, sourceI))"
  by pat_completeness auto
termination
  by (relation "measure (\<lambda>(dbg, s, Z, I). length I)") (auto dest: merge_round_length)

declare merge_rounds.simps [simp del]

text \<open>
  The merged list of the estimator: the collection, the rounds, and \<^verbatim>\<open>pop_back\<close> of the
  final sentinel.  \<open>n\<close> is \<^verbatim>\<open>graph.NumVertices()\<close>.
\<close>

definition Estimator_Z ::
  "bool \<Rightarrow> nat \<Rightarrow> nat list list \<Rightarrow> nat list \<Rightarrow> nat \<Rightarrow> nat \<Rightarrow> error + zentry list" where
  "Estimator_Z dbg n sketches S k l =
     (let sentinelRank = n * l in
      case collect k sentinelRank sketches S [] [] of
        Inl e \<Rightarrow> Inl e
      | Inr (sourceZ, sourceI) \<Rightarrow>
      let sourceI = sourceI @ [length sourceZ] in
      case Assert dbg (2 \<le> length sourceI) of
        Inl e \<Rightarrow> Inl e
      | Inr _ \<Rightarrow>
      case merge_rounds dbg sentinelRank sourceZ sourceI of
        Inl e \<Rightarrow> Inl e
      | Inr (sourceZ, sourceI) \<Rightarrow>
      case Assert dbg (sourceZ \<noteq> []) of
        Inl e \<Rightarrow> Inl e
      | Inr _ \<Rightarrow>
      if sourceZ = [] then Inl Out_of_bounds else Inr (butlast sourceZ))"

text \<open>
  The arithmetic of the type \<^verbatim>\<open>double\<close> belongs to the compiler and the machine; it is a
  parameter of the model: the conversion of an unsigned integer to a \<^verbatim>\<open>double\<close>, the
  literal \<^verbatim>\<open>1.0\<close>, and the sum, the quotient and the product of two doubles, each with
  the rounding (and the infinite values) that the machine gives it.
\<close>

record 'd double_ops =
  d_of_nat :: "nat \<Rightarrow> 'd"
  d_one :: 'd
  d_add :: "'d \<Rightarrow> 'd \<Rightarrow> 'd"
  d_div :: "'d \<Rightarrow> 'd \<Rightarrow> 'd"
  d_mul :: "'d \<Rightarrow> 'd \<Rightarrow> 'd"

text \<open>
  The accumulation \<^verbatim>\<open>double estimate = 0; for (z : sourceZ) estimate += 1.0 / double(z.second);\<close>
  in the order of the list, and the final product \<^verbatim>\<open>estimate * graph.NumVertices()\<close>.
\<close>

definition accumulate :: "'d double_ops \<Rightarrow> nat \<Rightarrow> zentry list \<Rightarrow> 'd" where
  "accumulate ops n Z =
     (let estimate =
            foldl (\<lambda>estimate z. d_add ops estimate (d_div ops (d_one ops) (d_of_nat ops (snd z))))
              (d_of_nat ops 0) Z
      in d_mul ops estimate (d_of_nat ops n))"

definition Estimator ::
  "'d double_ops \<Rightarrow> bool \<Rightarrow> nat \<Rightarrow> nat list list \<Rightarrow> nat list \<Rightarrow> nat \<Rightarrow> nat \<Rightarrow> error + 'd" where
  "Estimator ops dbg n sketches S k l =
     (case Estimator_Z dbg n sketches S k l of
        Inl e \<Rightarrow> Inl e
      | Inr Z \<Rightarrow> Inr (accumulate ops n Z))"

section \<open>The reference semantics of the estimator\<close>

text \<open>
  The merge as the specification words it, to be compared with \<^const>\<open>Estimator_Z\<close>.  For a
  seed with sketch \<open>X\<close>: the pairs \<open>(r, \<tau>)\<close> for the ranks \<open>r\<close> of \<open>X\<close>, without the
  \<open>k\<close>-th rank when \<open>X\<close> has \<open>k\<close> ranks, where \<open>\<tau>\<close> is the \<open>k\<close>-th rank when \<open>X\<close>
  has \<open>k\<close> ranks and \<open>n * l\<close> otherwise.
\<close>

definition spec_pairs :: "nat \<Rightarrow> nat \<Rightarrow> nat list \<Rightarrow> zentry list" where
  "spec_pairs k nl X =
     (let tau = (if length X = k then X ! (k - 1) else nl)
      in map (\<lambda>r. (r, tau)) (if length X = k then butlast X else X))"

text \<open>
  All lists merged by ascending rank, the entries of one rank coalesced into the single
  entry with the largest threshold.
\<close>

definition spec_merge :: "zentry list list \<Rightarrow> zentry list" where
  "spec_merge Zs =
     (let every = concat Zs
      in map (\<lambda>r. (r, Max (set (map snd (filter (\<lambda>z. fst z = r) every)))))
           (sort (remdups (map fst every))))"

text \<open>
  The reference list of a seed set, and the estimate over it: \<open>n\<close> times the sum of
  \<open>1 / \<tau>\<close> over the merged list, the sum taken from the first entry on in the arithmetic
  of the doubles.
\<close>

definition spec_list :: "nat \<Rightarrow> nat list list \<Rightarrow> nat list \<Rightarrow> nat \<Rightarrow> nat \<Rightarrow> zentry list" where
  "spec_list n sketches S k l = spec_merge (map (\<lambda>s. spec_pairs k (n * l) (sketches ! s)) S)"

definition spec_estimate ::
  "'d double_ops \<Rightarrow> nat \<Rightarrow> nat list list \<Rightarrow> nat list \<Rightarrow> nat \<Rightarrow> nat \<Rightarrow> 'd" where
  "spec_estimate ops n sketches S k l =
     d_mul ops
       (foldl (\<lambda>sum z. d_add ops sum (d_div ops (d_one ops) (d_of_nat ops (snd z))))
          (d_of_nat ops 0) (spec_list n sketches S k l))
       (d_of_nat ops n)"

text \<open>The arithmetic of the real numbers, without rounding.\<close>

definition exact_ops :: "real double_ops" where
  "exact_ops = \<lparr>d_of_nat = real, d_one = 1, d_add = (\<lambda>x y. x + y),
                 d_div = (\<lambda>x y. x / y), d_mul = (\<lambda>x y. x * y)\<rparr>"

text \<open>A sorted bottom-\<open>k\<close> sketch over the ranks below \<open>n * l\<close>.\<close>

definition bottom_k_sketch :: "nat \<Rightarrow> nat \<Rightarrow> nat list \<Rightarrow> bool" where
  "bottom_k_sketch k nl X \<longleftrightarrow>
     sorted_wrt (<) X \<and> length X \<le> k \<and> list_all (\<lambda>r. r < nl) X"

section \<open>Building the graph from an arc list (FastStaticGraph.h)\<close>

text \<open>Writing \<^verbatim>\<open>xs[i] = v\<close> into an array.\<close>

definition put :: "'a list \<Rightarrow> nat \<Rightarrow> 'a \<Rightarrow> error + 'a list" where
  "put xs i v = (if i < length xs then Inr (xs[i := v]) else Inl Out_of_bounds)"

text \<open>
  Modelled from the spec: an arc id is stored as a 32-bit unsigned integer (the type
  \<^verbatim>\<open>ArcIdType\<close> is chosen in FastStaticGraphs.h).  The value that an arithmetic result
  has in this type:
\<close>

definition arc_id :: "nat \<Rightarrow> nat" where
  "arc_id x = x mod 2 ^ 32"

text \<open>
  The first pass of \<^verbatim>\<open>ReadFromArcList\<close>: the degree of every vertex is counted in its
  \<^verbatim>\<open>FirstArcId\<close>.
\<close>

fun count_degrees ::
  "bool \<Rightarrow> nat \<Rightarrow> bool \<Rightarrow> bool \<Rightarrow> (nat \<times> nat) list \<Rightarrow> nat list \<Rightarrow> error + nat list" where
  "count_degrees dbg numVertices isDirected buildIncomingArcs [] vertices = Inr vertices"
| "count_degrees dbg numVertices isDirected buildIncomingArcs
     ((fromVertexId, toVertexId) # inArcs) vertices =
     (case Assert dbg (fromVertexId < numVertices) of Inl e \<Rightarrow> Inl e | Inr _ \<Rightarrow>
      case Assert dbg (toVertexId < numVertices) of Inl e \<Rightarrow> Inl e | Inr _ \<Rightarrow>
      case Assert dbg (isDirected \<or> fromVertexId < toVertexId) of Inl e \<Rightarrow> Inl e | Inr _ \<Rightarrow>
      case elem_at vertices fromVertexId of Inl e \<Rightarrow> Inl e | Inr d \<Rightarrow>
      case put vertices fromVertexId (arc_id (d + 1)) of Inl e \<Rightarrow> Inl e | Inr vertices \<Rightarrow>
      if buildIncomingArcs \<or> \<not> isDirected
      then (case elem_at vertices toVertexId of Inl e \<Rightarrow> Inl e | Inr d \<Rightarrow>
            case put vertices toVertexId (arc_id (d + 1)) of
              Inl e \<Rightarrow> Inl e | Inr vertices \<Rightarrow>
            count_degrees dbg numVertices isDirected buildIncomingArcs inArcs vertices)
      else count_degrees dbg numVertices isDirected buildIncomingArcs inArcs vertices)"

text \<open>
  The second pass, \<^verbatim>\<open>for (VertexIdType u = 0; u < numVertices; ++u)\<close>: the degrees become
  the offsets of the blocks, copied to \<^verbatim>\<open>firstFreeArcId\<close>.
\<close>

function rewire ::
  "nat \<Rightarrow> nat \<Rightarrow> nat \<Rightarrow> nat list \<Rightarrow> nat list \<Rightarrow> error + (nat \<times> nat list \<times> nat list)" where
  "rewire numVertices u currentFirstArc vertices firstFreeArcId =
     (if u < numVertices
      then
        let previousFirstArc = currentFirstArc in
        case elem_at vertices u of Inl e \<Rightarrow> Inl e | Inr d \<Rightarrow>
        let currentFirstArc = arc_id (currentFirstArc + d) in
        case put vertices u previousFirstArc of Inl e \<Rightarrow> Inl e | Inr vertices \<Rightarrow>
        case put firstFreeArcId u previousFirstArc of Inl e \<Rightarrow> Inl e | Inr firstFreeArcId \<Rightarrow>
        rewire numVertices (u + 1) currentFirstArc vertices firstFreeArcId
      else Inr (currentFirstArc, vertices, firstFreeArcId))"
  by pat_completeness auto
termination
  by (relation "measure (\<lambda>(n, u, c, vs, ff). n - u)") auto

declare rewire.simps [simp del]

text \<open>
  The third pass writes the arcs.  The outgoing arc of \<open>(from, to)\<close> goes to the first
  free entry of \<open>from\<close>; with incoming arcs or an undirected graph a second arc goes to the
  first free entry of \<open>to\<close>.  The setters change the entry that is there.  The two
  assertions read \<^verbatim>\<open>firstFreeArcId[v + 1]\<close>, which is inside the array when the assertions
  of the first pass hold.
\<close>

definition add_outgoing :: "bool \<Rightarrow> bool \<Rightarrow> nat \<Rightarrow> FastArc \<Rightarrow> FastArc" where
  "add_outgoing isDirected buildIncomingArcs toVertexId a =
     (let a = SetOtherVertexId (of_nat toVertexId) a;
          a = SetForwardFlag a;
          a = (if \<not> isDirected \<and> buildIncomingArcs then SetBackwardFlag a else a)
      in a)"

definition add_incoming :: "bool \<Rightarrow> bool \<Rightarrow> nat \<Rightarrow> FastArc \<Rightarrow> FastArc" where
  "add_incoming isDirected buildIncomingArcs fromVertexId a =
     (let a = SetOtherVertexId (of_nat fromVertexId) a;
          a = (if \<not> isDirected then SetForwardFlag a else a);
          a = (if buildIncomingArcs then SetBackwardFlag a else a)
      in a)"

fun add_arcs ::
  "bool \<Rightarrow> bool \<Rightarrow> bool \<Rightarrow> (nat \<times> nat) list \<Rightarrow> FastArc list \<Rightarrow> nat list
     \<Rightarrow> error + (FastArc list \<times> nat list)" where
  "add_arcs dbg isDirected buildIncomingArcs [] arcs firstFreeArcId = Inr (arcs, firstFreeArcId)"
| "add_arcs dbg isDirected buildIncomingArcs ((fromVertexId, toVertexId) # inArcs)
     arcs firstFreeArcId =
     (case Assert dbg (firstFreeArcId ! fromVertexId < firstFreeArcId ! (fromVertexId + 1)) of
        Inl e \<Rightarrow> Inl e | Inr _ \<Rightarrow>
      case elem_at firstFreeArcId fromVertexId of Inl e \<Rightarrow> Inl e | Inr p \<Rightarrow>
      case elem_at arcs p of Inl e \<Rightarrow> Inl e | Inr a \<Rightarrow>
      case put arcs p (add_outgoing isDirected buildIncomingArcs toVertexId a) of
        Inl e \<Rightarrow> Inl e | Inr arcs \<Rightarrow>
      case put firstFreeArcId fromVertexId (arc_id (p + 1)) of
        Inl e \<Rightarrow> Inl e | Inr firstFreeArcId \<Rightarrow>
      if buildIncomingArcs \<or> \<not> isDirected
      then (case Assert dbg (firstFreeArcId ! toVertexId < firstFreeArcId ! (toVertexId + 1)) of
              Inl e \<Rightarrow> Inl e | Inr _ \<Rightarrow>
            case elem_at firstFreeArcId toVertexId of Inl e \<Rightarrow> Inl e | Inr q \<Rightarrow>
            case elem_at arcs q of Inl e \<Rightarrow> Inl e | Inr b \<Rightarrow>
            case put arcs q (add_incoming isDirected buildIncomingArcs fromVertexId b) of
              Inl e \<Rightarrow> Inl e | Inr arcs \<Rightarrow>
            case put firstFreeArcId toVertexId (arc_id (q + 1)) of
              Inl e \<Rightarrow> Inl e | Inr firstFreeArcId \<Rightarrow>
            add_arcs dbg isDirected buildIncomingArcs inArcs arcs firstFreeArcId)
      else add_arcs dbg isDirected buildIncomingArcs inArcs arcs firstFreeArcId)"

text \<open>
  \<^verbatim>\<open>sort(first, last)\<close> on a block of arcs.  The algorithm belongs to the C++ library; its
  result is a sorted permutation of the block, here the one of insertion sort.  With two or
  more arcs in the block every arc is compared, and \<^verbatim>\<open>operator<\<close> asserts that its operands
  are valid.
\<close>

fun insert_arc :: "FastArc \<Rightarrow> FastArc list \<Rightarrow> FastArc list" where
  "insert_arc x [] = [x]"
| "insert_arc x (y # ys) = (if arc_less x y then x # y # ys else y # insert_arc x ys)"

definition sort_arcs :: "FastArc list \<Rightarrow> FastArc list" where
  "sort_arcs as = foldr insert_arc as []"

definition sort_range :: "bool \<Rightarrow> FastArc list \<Rightarrow> nat \<Rightarrow> nat \<Rightarrow> error + FastArc list" where
  "sort_range dbg arcs lo hi =
     (if lo \<le> hi \<and> hi \<le> length arcs
      then let block = take (hi - lo) (drop lo arcs) in
           if dbg \<and> 2 \<le> length block \<and> \<not> list_all Valid block then Inl Assertion_failed
           else Inr (take lo arcs @ sort_arcs block @ drop hi arcs)
      else Inl Out_of_bounds)"

text \<open>The last loop, \<^verbatim>\<open>for (VertexIdType u = 0; u < NumVertices(); ++u)\<close>.\<close>

function sort_blocks :: "bool \<Rightarrow> nat \<Rightarrow> nat \<Rightarrow> nat list \<Rightarrow> FastArc list \<Rightarrow> error + FastArc list" where
  "sort_blocks dbg numVertices u vertices arcs =
     (if u < numVertices
      then
        case elem_at vertices u of Inl e \<Rightarrow> Inl e | Inr lo \<Rightarrow>
        case elem_at vertices (u + 1) of Inl e \<Rightarrow> Inl e | Inr hi \<Rightarrow>
        case sort_range dbg arcs lo hi of Inl e \<Rightarrow> Inl e | Inr arcs \<Rightarrow>
        sort_blocks dbg numVertices (u + 1) vertices arcs
      else Inr arcs)"
  by pat_completeness auto
termination
  by (relation "measure (\<lambda>(dbg, n, u, vs, as). n - u)") auto

declare sort_blocks.simps [simp del]

text \<open>
  \<^verbatim>\<open>ReadFromArcList\<close>.  The memory of the vertices and of the arcs is zero when it is
  created.  The number of arcs is doubled under the condition
  \<^verbatim>\<open>buildIncomingArcs || isDirected\<close>, as line 340 of the source has it.  The number of
  arcs is a \<^verbatim>\<open>Types::SizeType\<close>, compared as such with \<^verbatim>\<open>currentFirstArc\<close> and cast to
  \<^verbatim>\<open>ArcIdType\<close> for the sentinel vertex.
\<close>

definition ReadFromArcList ::
  "bool \<Rightarrow> nat \<Rightarrow> (nat \<times> nat) list \<Rightarrow> bool \<Rightarrow> bool \<Rightarrow> error + FastStaticGraph" where
  "ReadFromArcList dbg numVertices inArcs isDirected buildIncomingArcs =
     (let numArcs = length inArcs;
          vertices = replicate (numVertices + 1) 0;
          numArcs = numArcs * (if buildIncomingArcs \<or> isDirected then 2 else 1);
          arcs = replicate (numArcs + 1) 0
      in
      case count_degrees dbg numVertices isDirected buildIncomingArcs inArcs vertices of
        Inl e \<Rightarrow> Inl e | Inr vertices \<Rightarrow>
      case rewire numVertices 0 0 vertices (replicate (numVertices + 1) 0) of
        Inl e \<Rightarrow> Inl e | Inr (currentFirstArc, vertices, firstFreeArcId) \<Rightarrow>
      case put firstFreeArcId numVertices currentFirstArc of
        Inl e \<Rightarrow> Inl e | Inr firstFreeArcId \<Rightarrow>
      case Assert dbg (currentFirstArc = numArcs) of Inl e \<Rightarrow> Inl e | Inr _ \<Rightarrow>
      case add_arcs dbg isDirected buildIncomingArcs inArcs arcs firstFreeArcId of
        Inl e \<Rightarrow> Inl e | Inr (arcs, firstFreeArcId) \<Rightarrow>
      case elem_at arcs numArcs of Inl e \<Rightarrow> Inl e | Inr a \<Rightarrow>
      case put arcs numArcs (SetOtherVertexId (of_nat numVertices) a) of
        Inl e \<Rightarrow> Inl e | Inr arcs \<Rightarrow>
      case put vertices numVertices (arc_id numArcs) of Inl e \<Rightarrow> Inl e | Inr vertices \<Rightarrow>
      if buildIncomingArcs \<and> isDirected
      then (case sort_blocks dbg numVertices 0 vertices arcs of
              Inl e \<Rightarrow> Inl e
            | Inr arcs \<Rightarrow>
                Inr \<lparr>NumVertices = numVertices, NumArcs = numArcs, IsDirected = isDirected,
                     Vertices = vertices, Arcs = arcs\<rparr>)
      else Inr \<lparr>NumVertices = numVertices, NumArcs = numArcs, IsDirected = isDirected,
                Vertices = vertices, Arcs = arcs\<rparr>)"

text \<open>\<^verbatim>\<open>vertices[v].FirstArcId()\<close> does not decrease along the vertices.\<close>

definition FirstArcId_monotone :: "FastStaticGraph \<Rightarrow> bool" where
  "FirstArcId_monotone g = sorted (Vertices g)"

section \<open>The in-degrees (constructors of SKIM and FastRSInfluenceOracle)\<close>

text \<open>
  \<^verbatim>\<open>FORALL_ARCS(graph, vertexId, arc)\<close>, from the header that is not part of the sources at
  hand: the arcs of all vertices, vertex by vertex.
\<close>

definition FORALL_ARCS :: "FastStaticGraph \<Rightarrow> FastArc list" where
  "FORALL_ARCS g = concat (map (incident_arcs g) [0..<NumVertices g])"

text \<open>
  The loop of both constructors:
  \<^verbatim>\<open>if (!arc->Forward()) continue; ++indeg[arc->OtherVertexId()];\<close>
  The entries of \<^verbatim>\<open>indeg\<close> are 32-bit counters.
\<close>

fun count_indeg :: "FastArc list \<Rightarrow> 32 word list \<Rightarrow> error + 32 word list" where
  "count_indeg [] indeg = Inr indeg"
| "count_indeg (arc # rest) indeg =
     (if \<not> Forward arc then count_indeg rest indeg
      else case elem_at indeg (unat (OtherVertexId arc)) of
             Inl e \<Rightarrow> Inl e
           | Inr d \<Rightarrow>
               (case put indeg (unat (OtherVertexId arc)) (d + 1) of
                  Inl e \<Rightarrow> Inl e
                | Inr indeg \<Rightarrow> count_indeg rest indeg))"

definition compute_indeg :: "FastStaticGraph \<Rightarrow> error + 32 word list" where
  "compute_indeg g = count_indeg (FORALL_ARCS g) (replicate (NumVertices g) 0)"

section \<open>The indexed set of the searches (FastSet.h)\<close>

text \<open>
  \<^verbatim>\<open>isContained\<close> maps a key to its membership and \<^verbatim>\<open>containedKeys\<close> holds the keys in
  the order of their insertion.  The methods assert that a key lies inside \<^verbatim>\<open>isContained\<close>
  and then index the vector.
\<close>

record FastSet =
  isContained :: "bool list"
  containedKeys :: "nat list"

definition FastSet_new :: "nat \<Rightarrow> FastSet" where
  "FastSet_new numElements = \<lparr>isContained = replicate numElements False, containedKeys = []\<rparr>"

definition FastSet_Size :: "FastSet \<Rightarrow> nat" where
  "FastSet_Size S = length (containedKeys S)"

definition FastSet_KeyByIndex :: "bool \<Rightarrow> FastSet \<Rightarrow> nat \<Rightarrow> error + nat" where
  "FastSet_KeyByIndex dbg S index =
     (case Assert dbg (index < length (containedKeys S)) of
        Inl e \<Rightarrow> Inl e
      | Inr _ \<Rightarrow> elem_at (containedKeys S) index)"

definition FastSet_IsContained :: "bool \<Rightarrow> FastSet \<Rightarrow> nat \<Rightarrow> error + bool" where
  "FastSet_IsContained dbg S key =
     (case Assert dbg (key < length (isContained S)) of
        Inl e \<Rightarrow> Inl e
      | Inr _ \<Rightarrow> elem_at (isContained S) key)"

definition FastSet_Insert :: "bool \<Rightarrow> FastSet \<Rightarrow> nat \<Rightarrow> error + FastSet" where
  "FastSet_Insert dbg S key =
     (case Assert dbg (key < length (isContained S)) of
        Inl e \<Rightarrow> Inl e
      | Inr _ \<Rightarrow>
      case FastSet_IsContained dbg S key of
        Inl e \<Rightarrow> Inl e
      | Inr c \<Rightarrow>
      let keys = (if \<not> c then containedKeys S @ [key] else containedKeys S) in
      case put (isContained S) key True of
        Inl e \<Rightarrow> Inl e
      | Inr ic \<Rightarrow> Inr \<lparr>isContained = ic, containedKeys = keys\<rparr>)"

text \<open>\<^verbatim>\<open>Clear\<close>: the flag of every contained key is reset, then the keys are dropped.\<close>

fun clear_flags :: "nat list \<Rightarrow> bool list \<Rightarrow> error + bool list" where
  "clear_flags [] ic = Inr ic"
| "clear_flags (key # keys) ic =
     (case put ic key False of Inl e \<Rightarrow> Inl e | Inr ic \<Rightarrow> clear_flags keys ic)"

definition FastSet_Clear :: "FastSet \<Rightarrow> error + FastSet" where
  "FastSet_Clear S =
     (case clear_flags (containedKeys S) (isContained S) of
        Inl e \<Rightarrow> Inl e
      | Inr ic \<Rightarrow> Inr \<lparr>isContained = ic, containedKeys = []\<rparr>)"

text \<open>The number of keys that are not in the set.\<close>

definition FastSet_room :: "FastSet \<Rightarrow> nat" where
  "FastSet_room S = length (filter Not (isContained S))"

lemma length_filter_update:
  assumes "i < length xs"
  shows "length (filter P (xs[i := y])) + (if P (xs ! i) then 1 else 0)
           = length (filter P xs) + (if P y then 1 else 0)"
proof -
  have "xs[i := y] = take i xs @ y # drop (Suc i) xs"
    using assms by (rule upd_conv_take_nth_drop)
  moreover have "xs = take i xs @ xs ! i # drop (Suc i) xs"
    using assms by (rule id_take_nth_drop)
  ultimately have "length (filter P (xs[i := y])) + (if P (xs ! i) then 1 else 0)
      = length (filter P (take i xs)) + (if P y then 1 else 0)
        + length (filter P (drop (Suc i) xs)) + (if P (xs ! i) then 1 else 0)"
    by simp
  also have "\<dots> = length (filter P (take i xs @ xs ! i # drop (Suc i) xs))
                     + (if P y then 1 else 0)"
    by simp
  also have "take i xs @ xs ! i # drop (Suc i) xs = xs"
    using assms by (rule id_take_nth_drop [symmetric])
  finally show ?thesis .
qed

lemma FastSet_Insert_room:
  assumes "FastSet_Insert dbg S key = Inr S'"
  shows "2 * FastSet_room S' + length (containedKeys S')
           \<le> 2 * FastSet_room S + length (containedKeys S)
       \<and> length (containedKeys S) \<le> length (containedKeys S')"
proof -
  from assms have k: "key < length (isContained S)"
    by (auto simp: FastSet_Insert_def put_def Let_def Assert_def split: sum.splits if_splits)
  from assms k have S': "S' = \<lparr>isContained = (isContained S)[key := True],
      containedKeys = (if \<not> isContained S ! key then containedKeys S @ [key] else containedKeys S)\<rparr>"
    by (auto simp: FastSet_Insert_def FastSet_IsContained_def elem_at_def put_def Let_def
        Assert_def split: sum.splits if_splits)
  from length_filter_update [OF k, of Not True]
  have "FastSet_room S' + (if \<not> isContained S ! key then 1 else 0) = FastSet_room S"
    by (simp add: FastSet_room_def S')
  then show ?thesis by (auto simp: S' split: if_splits)
qed

section \<open>The combined bottom-k sketches (FastRSInfluenceOracle::RunPreprocessing)\<close>

text \<open>
  The template parameter \<^verbatim>\<open>modelType\<close> selects the predicate \<^verbatim>\<open>Contained\<close>; in the model
  the predicate is a parameter, to be instantiated with \<^const>\<open>Contained_WEIGHTED\<close>,
  \<^const>\<open>Contained_BINARY\<close> or \<^const>\<open>Oracle_Contained_TRIVALENCY\<close> for a seed and the
  members they use.
\<close>

type_synonym contained = "32 word \<Rightarrow> 32 word \<Rightarrow> 16 word \<Rightarrow> 16 word \<Rightarrow> error + bool"

text \<open>
  The arc expansion of vertex \<open>u\<close> over the arcs that the backward scan sees:
  \<^verbatim>\<open>if (Contained<modelType>(v, u, i, l) && !S.IsContained(v)) S.Insert(v);\<close>
\<close>

fun arc_expansion ::
  "bool \<Rightarrow> contained \<Rightarrow> 32 word \<Rightarrow> 16 word \<Rightarrow> 16 word \<Rightarrow> FastArc list \<Rightarrow> FastSet
     \<Rightarrow> error + FastSet" where
  "arc_expansion dbg Contained u i l [] S = Inr S"
| "arc_expansion dbg Contained u i l (a # as) S =
     (let v = OtherVertexId a in
      case Contained v u i l of
        Inl e \<Rightarrow> Inl e
      | Inr c \<Rightarrow>
          if c
          then (case FastSet_IsContained dbg S (unat v) of
                  Inl e \<Rightarrow> Inl e
                | Inr isin \<Rightarrow>
                    if \<not> isin
                    then (case FastSet_Insert dbg S (unat v) of
                            Inl e \<Rightarrow> Inl e
                          | Inr S \<Rightarrow> arc_expansion dbg Contained u i l as S)
                    else arc_expansion dbg Contained u i l as S)
          else arc_expansion dbg Contained u i l as S)"

lemma arc_expansion_room:
  "arc_expansion dbg Contained u i l as S = Inr S'
     \<Longrightarrow> 2 * FastSet_room S' + length (containedKeys S')
           \<le> 2 * FastSet_room S + length (containedKeys S)
         \<and> length (containedKeys S) \<le> length (containedKeys S')"
proof (induction as arbitrary: S)
  case Nil
  then show ?case by simp
next
  case (Cons a as)
  show ?case
  proof (cases "\<exists>S1. FastSet_Insert dbg S (unat (OtherVertexId a)) = Inr S1
                    \<and> arc_expansion dbg Contained u i l as S1 = Inr S'")
    case True
    then obtain S1 where 1: "FastSet_Insert dbg S (unat (OtherVertexId a)) = Inr S1"
      and 2: "arc_expansion dbg Contained u i l as S1 = Inr S'"
      by blast
    from FastSet_Insert_room [OF 1] Cons.IH [OF 2] show ?thesis by linarith
  next
    case False
    with Cons.prems have "arc_expansion dbg Contained u i l as S = Inr S'"
      by (auto simp: Let_def split: sum.splits if_splits)
    then show ?thesis by (rule Cons.IH)
  qed
qed

text \<open>
  The loop \<^verbatim>\<open>while (ind < S.Size())\<close> of the search from one source.  A vertex whose
  local sketch holds \<open>k\<close> ranks is skipped; otherwise the rank is appended to its local
  sketch and its backward arcs are expanded.
\<close>

function sketch_bfs ::
  "bool \<Rightarrow> contained \<Rightarrow> FastStaticGraph \<Rightarrow> nat \<Rightarrow> 16 word \<Rightarrow> 16 word \<Rightarrow> nat
     \<Rightarrow> FastSet \<Rightarrow> nat \<Rightarrow> nat list list \<Rightarrow> error + (FastSet \<times> nat list list)" where
  "sketch_bfs dbg Contained g k l i rank S ind localSketches =
     (if ind < FastSet_Size S
      then
        case FastSet_KeyByIndex dbg S ind of
          Inl e \<Rightarrow> Inl e
        | Inr u \<Rightarrow>
        case elem_at localSketches u of
          Inl e \<Rightarrow> Inl e
        | Inr Y \<Rightarrow>
        if k \<le> length Y
        then sketch_bfs dbg Contained g k l i rank S (ind + 1) localSketches
        else
          case put localSketches u (Y @ [rank]) of
            Inl e \<Rightarrow> Inl e
          | Inr localSketches \<Rightarrow>
          case arc_expansion dbg Contained (of_nat u) i l (backward_scan g u) S of
            Inl e \<Rightarrow> Inl e
          | Inr S \<Rightarrow> sketch_bfs dbg Contained g k l i rank S (ind + 1) localSketches
      else Inr (S, localSketches))"
  by pat_completeness auto
termination
proof (relation "measure (\<lambda>(dbg, Contained, g, k, l, i, rank, S, ind, L).
                    2 * FastSet_room S + length (containedKeys S) - ind)", goal_cases)
  case 1
  show ?case by simp
next
  case (2 dbg Contained g k l i rank S ind localSketches x2 x2a)
  then show ?case by (simp add: FastSet_Size_def)
next
  case (3 dbg Contained g k l i rank S ind localSketches x2 x2a x2b x2c)
  from arc_expansion_room [OF 3(6)] 3(1) show ?case
    by (simp add: FastSet_Size_def) linarith
qed

declare sketch_bfs.simps [simp del]

text \<open>The search from the source of one rank: \<^verbatim>\<open>S.Clear(); S.Insert(sourceVertexId);\<close>\<close>

definition sketch_from_source ::
  "bool \<Rightarrow> contained \<Rightarrow> FastStaticGraph \<Rightarrow> nat \<Rightarrow> 16 word \<Rightarrow> 16 word \<Rightarrow> nat \<times> nat
     \<Rightarrow> FastSet \<Rightarrow> nat list list \<Rightarrow> error + (FastSet \<times> nat list list)" where
  "sketch_from_source dbg Contained g k l i entry S localSketches =
     (let rank = fst entry; sourceVertexId = snd entry in
      case FastSet_Clear S of
        Inl e \<Rightarrow> Inl e
      | Inr S \<Rightarrow>
      case FastSet_Insert dbg S sourceVertexId of
        Inl e \<Rightarrow> Inl e
      | Inr S \<Rightarrow> sketch_bfs dbg Contained g k l i rank S 0 localSketches)"

text \<open>The loop \<^verbatim>\<open>for (uint32_t j = 0; j < uint32_t(graph.NumVertices()); ++j)\<close>.\<close>

fun instance_pass ::
  "bool \<Rightarrow> contained \<Rightarrow> FastStaticGraph \<Rightarrow> nat \<Rightarrow> 16 word \<Rightarrow> 16 word \<Rightarrow> (nat \<times> nat) list
     \<Rightarrow> nat list \<Rightarrow> FastSet \<Rightarrow> nat list list \<Rightarrow> error + (FastSet \<times> nat list list)" where
  "instance_pass dbg Contained g k l i ranks [] S localSketches = Inr (S, localSketches)"
| "instance_pass dbg Contained g k l i ranks (j # js) S localSketches =
     (case elem_at ranks j of
        Inl e \<Rightarrow> Inl e
      | Inr entry \<Rightarrow>
      case sketch_from_source dbg Contained g k l i entry S localSketches of
        Inl e \<Rightarrow> Inl e
      | Inr (S, localSketches) \<Rightarrow>
          instance_pass dbg Contained g k l i ranks js S localSketches)"

text \<open>\<^verbatim>\<open>set_union\<close> of the C++ library on two ranges: the merge that keeps one of two equal
  elements.\<close>

fun set_union :: "nat list \<Rightarrow> nat list \<Rightarrow> nat list" where
  "set_union [] ys = ys"
| "set_union xs [] = xs"
| "set_union (x # xs) (y # ys) =
     (if x < y then x # set_union xs (y # ys)
      else if y < x then y # set_union (x # xs) ys
      else x # set_union xs ys)"

text \<open>The merge of the local sketches into the global ones, \<^verbatim>\<open>FORALL_VERTICES(graph, u)\<close>.\<close>

fun merge_sketches ::
  "nat \<Rightarrow> nat list \<Rightarrow> nat list list \<Rightarrow> nat list list \<Rightarrow> error + (nat list list \<times> nat list list)" where
  "merge_sketches k [] sketches localSketches = Inr (sketches, localSketches)"
| "merge_sketches k (u # us) sketches localSketches =
     (case elem_at sketches u of
        Inl e \<Rightarrow> Inl e
      | Inr X \<Rightarrow>
      case elem_at localSketches u of
        Inl e \<Rightarrow> Inl e
      | Inr Y \<Rightarrow>
      let Z = set_union X Y;
          Z = (if k < length Z then take k Z else Z)
      in
      case put sketches u Z of
        Inl e \<Rightarrow> Inl e
      | Inr sketches \<Rightarrow>
      case put localSketches u [] of
        Inl e \<Rightarrow> Inl e
      | Inr localSketches \<Rightarrow> merge_sketches k us sketches localSketches)"

text \<open>
  The grouping of the ranks by instance: rank \<open>r\<close> belongs to the instance
  \<^verbatim>\<open>uint16_t(permutation[r] / n)\<close> and to the source vertex
  \<^verbatim>\<open>uint32_t(permutation[r] % n)\<close>.
\<close>

fun group_ranks ::
  "bool \<Rightarrow> nat \<Rightarrow> nat \<Rightarrow> nat list \<Rightarrow> nat list \<Rightarrow> (nat \<times> nat) list list
     \<Rightarrow> error + (nat \<times> nat) list list" where
  "group_ranks dbg n l permutation [] instanceRanks = Inr instanceRanks"
| "group_ranks dbg n l permutation (r # rs) instanceRanks =
     (case elem_at permutation r of
        Inl e \<Rightarrow> Inl e
      | Inr p \<Rightarrow>
      if n = 0 then Inl Division_by_zero
      else
        let i = (p div n) mod 2 ^ 16 in
        case Assert dbg (i < l) of
          Inl e \<Rightarrow> Inl e
        | Inr _ \<Rightarrow>
        let u = (p mod n) mod 2 ^ 32 in
        case Assert dbg (u < n) of
          Inl e \<Rightarrow> Inl e
        | Inr _ \<Rightarrow>
        case elem_at instanceRanks i of
          Inl e \<Rightarrow> Inl e
        | Inr ranks \<Rightarrow>
        case put instanceRanks i (ranks @ [(r, u)]) of
          Inl e \<Rightarrow> Inl e
        | Inr instanceRanks \<Rightarrow> group_ranks dbg n l permutation rs instanceRanks)"

text \<open>The loop over the instances, \<^verbatim>\<open>for (uint16_t i = 0; i < l; ++i)\<close>.\<close>

fun all_instances ::
  "bool \<Rightarrow> contained \<Rightarrow> FastStaticGraph \<Rightarrow> nat \<Rightarrow> nat \<Rightarrow> (nat \<times> nat) list list \<Rightarrow> nat list
     \<Rightarrow> FastSet \<Rightarrow> nat list list \<Rightarrow> nat list list \<Rightarrow> error + nat list list" where
  "all_instances dbg Contained g k l instanceRanks [] S sketches localSketches = Inr sketches"
| "all_instances dbg Contained g k l instanceRanks (i # is) S sketches localSketches =
     (case elem_at instanceRanks i of
        Inl e \<Rightarrow> Inl e
      | Inr ranks \<Rightarrow>
      case Assert dbg (length ranks = NumVertices g) of
        Inl e \<Rightarrow> Inl e
      | Inr _ \<Rightarrow>
      case instance_pass dbg Contained g k (of_nat l) (of_nat i) ranks [0..<NumVertices g]
             S localSketches of
        Inl e \<Rightarrow> Inl e
      | Inr (S, localSketches) \<Rightarrow>
      case merge_sketches k [0..<NumVertices g] sketches localSketches of
        Inl e \<Rightarrow> Inl e
      | Inr (sketches, localSketches) \<Rightarrow>
          all_instances dbg Contained g k l instanceRanks is S sketches localSketches)"

text \<open>
  \<^verbatim>\<open>RunPreprocessing(k, l)\<close> on an oracle that has no sketches yet.  The random permutation
  of \<open>[0, n * l)\<close> comes from the generator and \<^verbatim>\<open>shuffle\<close> of the C++ library and is a
  parameter.
\<close>

definition RunPreprocessing ::
  "bool \<Rightarrow> contained \<Rightarrow> FastStaticGraph \<Rightarrow> nat list \<Rightarrow> nat \<Rightarrow> nat \<Rightarrow> error + nat list list" where
  "RunPreprocessing dbg Contained g permutation k l =
     (let n = NumVertices g;
          sketches = replicate n [];
          localSketches = replicate n [];
          S = FastSet_new n
      in
      case group_ranks dbg n l permutation [0..<length permutation] (replicate l []) of
        Inl e \<Rightarrow> Inl e
      | Inr instanceRanks \<Rightarrow>
          all_instances dbg Contained g k l instanceRanks [0..<l] S sketches localSketches)"

section \<open>Notions used in the proofs about the estimator\<close>

text \<open>The merge of two chunks as a function on lists, without sentinels.\<close>

fun merge2 :: "zentry list \<Rightarrow> zentry list \<Rightarrow> zentry list" where
  "merge2 [] ys = ys"
| "merge2 xs [] = xs"
| "merge2 (x # xs) (y # ys) =
     (if fst x < fst y then x # merge2 xs (y # ys)
      else if fst y < fst x then y # merge2 (x # xs) ys
      else if snd x > snd y then x # merge2 xs ys
      else y # merge2 xs ys)"

text \<open>One round on the list of chunks.\<close>

fun pairup :: "zentry list list \<Rightarrow> zentry list list" where
  "pairup [] = []"
| "pairup [c] = [c]"
| "pairup (a # b # cs) = merge2 a b # pairup cs"

text \<open>The buffer that holds a list of chunks, each closed by the sentinel, and its offsets.\<close>

definition flat :: "nat \<Rightarrow> zentry list list \<Rightarrow> zentry list" where
  "flat s cs = concat (map (\<lambda>c. c @ [(s, 0)]) cs)"

fun offsets :: "zentry list list \<Rightarrow> nat \<Rightarrow> nat list" where
  "offsets [] a = []"
| "offsets (c # cs) a = a # offsets cs (a + length c + 1)"

text \<open>A chunk: ranks strictly ascending and below the sentinel rank.\<close>

definition chunk :: "nat \<Rightarrow> zentry list \<Rightarrow> bool" where
  "chunk s c \<longleftrightarrow> sorted_wrt (<) (map fst c) \<and> list_all (\<lambda>z. fst z < s) c"

text \<open>The entries of a set that carry the largest threshold of their rank.\<close>

definition top_entries :: "zentry set \<Rightarrow> zentry set" where
  "top_entries P = {z \<in> P. \<forall>z' \<in> P. fst z' = fst z \<longrightarrow> snd z' \<le> snd z}"

section \<open>Notions used in the proofs about the builder\<close>

text \<open>
  With incoming arcs, the number of entries of vertex \<open>u\<close>: one for every arc that leaves
  it and one for every arc that enters it.
\<close>

definition endpoint_count :: "(nat \<times> nat) list \<Rightarrow> nat \<Rightarrow> nat" where
  "endpoint_count inArcs u =
     length (filter (\<lambda>e. fst e = u) inArcs) + length (filter (\<lambda>e. snd e = u) inArcs)"

text \<open>The offset of the block of vertex \<open>u\<close>.\<close>

definition block_start :: "(nat \<times> nat) list \<Rightarrow> nat \<Rightarrow> nat" where
  "block_start inArcs u = (\<Sum>i<u. endpoint_count inArcs i)"

text \<open>The arc list that the builder expects.\<close>

definition arcs_in_range :: "nat \<Rightarrow> bool \<Rightarrow> (nat \<times> nat) list \<Rightarrow> bool" where
  "arcs_in_range n isDirected inArcs =
     list_all (\<lambda>e. fst e < n \<and> snd e < n \<and> (isDirected \<or> fst e < snd e)) inArcs"

text \<open>
  An entry of vertex \<open>u\<close> that has been written: a valid arc to a vertex of the graph, and
  when it is a backward arc, some written entry is a forward arc to \<open>u\<close>.  \<open>P\<close> is the
  part of the arc list that has been processed.
\<close>

definition slot_paired ::
  "nat \<Rightarrow> (nat \<times> nat) list \<Rightarrow> (nat \<times> nat) list \<Rightarrow> FastArc list \<Rightarrow> nat \<Rightarrow> FastArc \<Rightarrow> bool" where
  "slot_paired n es P arcs u a \<longleftrightarrow>
     Valid a \<and> unat (OtherVertexId a) < n \<and>
     (Backward a \<longrightarrow>
        (\<exists>v<n. \<exists>i<endpoint_count P v.
           Forward (arcs ! (block_start es v + i))
           \<and> unat (OtherVertexId (arcs ! (block_start es v + i))) = u))"

text \<open>The state of the third pass after the arcs \<open>P\<close>.\<close>

definition add_inv ::
  "nat \<Rightarrow> (nat \<times> nat) list \<Rightarrow> (nat \<times> nat) list \<Rightarrow> FastArc list \<Rightarrow> nat list \<Rightarrow> bool" where
  "add_inv n es P arcs ff \<longleftrightarrow>
     length arcs = 2 * length es + 1 \<and> length ff = n + 1 \<and>
     ff ! n = block_start es n \<and>
     (\<forall>u<n. ff ! u = block_start es u + endpoint_count P u) \<and>
     (\<forall>u<n. \<forall>j<endpoint_count es u.
        if j < endpoint_count P u
        then slot_paired n es P arcs u (arcs ! (block_start es u + j))
        else arcs ! (block_start es u + j) = 0)"

text \<open>The entries \<open>lo .. hi - 1\<close> of an array.\<close>

definition segment :: "'a list \<Rightarrow> nat \<Rightarrow> nat \<Rightarrow> 'a list" where
  "segment xs lo hi = take (hi - lo) (drop lo xs)"

text \<open>
  Every arc in the block of a vertex is valid and leads to a vertex of the graph, and every
  backward arc in the block of \<open>u\<close> is matched by a forward arc to \<open>u\<close> in some block.
\<close>

definition paired_graph :: "FastStaticGraph \<Rightarrow> bool" where
  "paired_graph g \<longleftrightarrow>
     (\<forall>u<NumVertices g. \<forall>a\<in>set (incident_arcs g u).
        Valid a \<and> unat (OtherVertexId a) < NumVertices g \<and>
        (Backward a \<longrightarrow>
           (\<exists>v<NumVertices g. \<exists>b\<in>set (incident_arcs g v).
              Forward b \<and> unat (OtherVertexId b) = u)))"

section \<open>Notions for the statement about the sketches\<close>

text \<open>
  The arc \<open>v \<rightarrow> u\<close> is in instance \<open>i\<close> of \<open>l\<close> when the block of \<open>u\<close> holds a backward arc
  to \<open>v\<close> that the predicate of the model accepts for the instance.
\<close>

definition instance_arc ::
  "contained \<Rightarrow> FastStaticGraph \<Rightarrow> nat \<Rightarrow> nat \<Rightarrow> nat \<Rightarrow> nat \<Rightarrow> bool" where
  "instance_arc Contained g l i v u \<longleftrightarrow>
     u < NumVertices g \<and>
     (\<exists>a\<in>set (incident_arcs g u). Backward a \<and> unat (OtherVertexId a) = v \<and>
        Contained (OtherVertexId a) (of_nat u) (of_nat i) (of_nat l) = Inr True)"

text \<open>The source \<open>s\<close> reverse-reaches \<open>v\<close>: there is a path from \<open>v\<close> to \<open>s\<close> in the instance.\<close>

definition reverse_reaches ::
  "contained \<Rightarrow> FastStaticGraph \<Rightarrow> nat \<Rightarrow> nat \<Rightarrow> nat \<Rightarrow> nat \<Rightarrow> bool" where
  "reverse_reaches Contained g l i s v \<longleftrightarrow> (instance_arc Contained g l i)\<^sup>*\<^sup>* v s"

text \<open>
  The graphs that the searches are run on: the backward scan of every vertex sees all its
  backward arcs (as it does when the block holds valid arcs sorted by \<^verbatim>\<open>operator<\<close>, and
  when every arc of the block is backward), the backward arcs lead to vertices of the
  graph, and the predicate of the model is defined on them for every instance.
\<close>

definition search_graph :: "contained \<Rightarrow> FastStaticGraph \<Rightarrow> nat \<Rightarrow> bool" where
  "search_graph Contained g l \<longleftrightarrow>
     NumVertices g < 2 ^ 32 \<and>
     (\<forall>u<NumVertices g.
        (\<forall>a\<in>set (incident_arcs g u). Backward a \<longrightarrow>
           a \<in> set (backward_scan g u) \<and>
           unat (OtherVertexId a) < NumVertices g \<and>
           (\<forall>i<l. \<exists>c. Contained (OtherVertexId a) (of_nat u) (of_nat i) (of_nat l) = Inr c)))"

text \<open>The instance and the source vertex of the rank \<open>r\<close>.\<close>

definition rank_instance :: "nat \<Rightarrow> nat list \<Rightarrow> nat \<Rightarrow> nat" where
  "rank_instance n permutation r = permutation ! r div n"

definition rank_source :: "nat \<Rightarrow> nat list \<Rightarrow> nat \<Rightarrow> nat" where
  "rank_source n permutation r = permutation ! r mod n"

text \<open>The state of a \<^verbatim>\<open>FastSet\<close> over \<open>n\<close> keys: the flags say which keys are stored.\<close>

definition fs_inv :: "nat \<Rightarrow> FastSet \<Rightarrow> bool" where
  "fs_inv n S \<longleftrightarrow>
     length (isContained S) = n \<and> distinct (containedKeys S) \<and>
     (\<forall>key<n. isContained S ! key \<longleftrightarrow> key \<in> set (containedKeys S)) \<and>
     (\<forall>key\<in>set (containedKeys S). key < n)"

text \<open>
  The state of the search from \<open>src\<close> with the rank \<open>rank\<close>, started on the local sketches
  \<open>L0\<close>: the first \<open>ind\<close> keys have been popped.
\<close>

definition bfs_inv ::
  "(nat \<Rightarrow> nat \<Rightarrow> bool) \<Rightarrow> nat \<Rightarrow> nat \<Rightarrow> nat \<Rightarrow> nat list list \<Rightarrow> nat \<Rightarrow> nat list \<Rightarrow> nat
     \<Rightarrow> nat list list \<Rightarrow> bool" where
  "bfs_inv arc n k rank L0 src keys ind L \<longleftrightarrow>
     ind \<le> length keys \<and> length L = n \<and> src \<in> set keys \<and>
     (\<forall>v\<in>set keys. arc\<^sup>*\<^sup>* v src) \<and>
     (\<forall>j<ind. length (L0 ! (keys ! j)) < k \<longrightarrow> (\<forall>v. arc v (keys ! j) \<longrightarrow> v \<in> set keys)) \<and>
     (\<forall>u<n. L ! u = (if u \<in> set (take ind keys) \<and> length (L0 ! u) < k
                      then L0 ! u @ [rank] else L0 ! u))"

text \<open>The graph with the vertices 0 and 1 and the arc from 0 to 1, as the builder stores it.\<close>

definition example_graph :: FastStaticGraph where
  "example_graph = \<lparr>NumVertices = 2, NumArcs = 2, IsDirected = True, Vertices = [0, 1, 2],
                     Arcs = [0x40000001, 0x80000000, 2]\<rparr>"

section \<open>Properties of the arc order\<close>

lemmas word32_eq_iff = bit_eq_iff [where ?'a = "32 word"]

lemma and_exp_eq_exp_iff: "n < 32 \<Longrightarrow> ((d::32 word) AND 2 ^ n = 2 ^ n) = bit d n"
  by (auto simp: word32_eq_iff bit_simps)

lemma and_two_exp_eq_0_iff:
  "n < 32 \<Longrightarrow> m < 32 \<Longrightarrow>
     ((d::32 word) AND (2 ^ n OR 2 ^ m) = 0) = (\<not> bit d n \<and> \<not> bit d m)"
  by (auto simp: word32_eq_iff bit_simps)

lemma Forward_bit: "Forward d = bit d 30"
  unfolding Forward_def using and_exp_eq_exp_iff [of 30 d] by simp

lemma Backward_bit: "Backward d = bit d 31"
  unfolding Backward_def using and_exp_eq_exp_iff [of 31 d] by simp

lemma Valid_iff: "Valid d \<longleftrightarrow> Forward d \<or> Backward d"
  unfolding Valid_def Forward_bit Backward_bit
  using and_two_exp_eq_0_iff [of 30 31 d] by simp

lemma direction_bucket_cases:
  "direction_bucket d =
     (if Backward d then (if Forward d then 1 else 2) else 0)"
  by (simp add: direction_bucket_def)

lemma arc_less_flags:
  assumes "Valid x" and "Valid y"
  shows "arc_less x y \<longleftrightarrow>
           (Forward x \<and> \<not> Backward x \<and> Backward y)
         \<or> (Forward x \<and> Backward x \<and> \<not> Forward y)
         \<or> (Forward x = Forward y \<and> Backward x = Backward y
              \<and> OtherVertexId x < OtherVertexId y)"
  using assms by (auto simp: arc_less_def direction_bucket_cases Valid_iff)

lemma sorted_block_Cons:
  "sorted_block (a # as) \<longleftrightarrow> (\<forall>b\<in>set as. \<not> arc_less b a) \<and> sorted_block as"
  by (simp add: sorted_block_def)

lemma sorted_block_buckets:
  assumes "\<forall>a\<in>set as. Valid a" and "sorted_block as"
  shows "as = filter (\<lambda>a. Forward a \<and> \<not> Backward a) as
            @ filter (\<lambda>a. Forward a \<and> Backward a) as
            @ filter (\<lambda>a. \<not> Forward a \<and> Backward a) as"
  using assms
proof (induction as)
  case Nil
  show ?case by simp
next
  case (Cons a as)
  have va: "Valid a" and vas: "\<forall>b\<in>set as. Valid b"
    using Cons.prems(1) by auto
  have later: "\<forall>b\<in>set as. \<not> arc_less b a" and sas: "sorted_block as"
    using Cons.prems(2) by (auto simp: sorted_block_Cons)
  note IH = Cons.IH [OF vas sas]
  consider (f) "Forward a" "\<not> Backward a" | (fb) "Forward a" "Backward a"
    | (b) "\<not> Forward a" "Backward a"
    using va by (auto simp: Valid_iff)
  then show ?case
  proof cases
    case f
    then show ?thesis using IH by simp
  next
    case fb
    have "\<forall>b\<in>set as. \<not> (Forward b \<and> \<not> Backward b)"
    proof
      fix b assume b: "b \<in> set as"
      with later vas have "\<not> arc_less b a" "Valid b" by auto
      then show "\<not> (Forward b \<and> \<not> Backward b)"
        using fb va by (auto simp: arc_less_flags)
    qed
    then have "filter (\<lambda>a. Forward a \<and> \<not> Backward a) as = []"
      by (simp add: filter_empty_conv)
    then show ?thesis using IH fb by simp
  next
    case b
    have nb: "\<forall>c\<in>set as. \<not> Forward c"
    proof
      fix c assume c: "c \<in> set as"
      with later vas have "\<not> arc_less c a" "Valid c" by auto
      then show "\<not> Forward c"
        using b va by (auto simp: arc_less_flags)
    qed
    then have "filter (\<lambda>a. Forward a \<and> \<not> Backward a) as = []"
      and "filter (\<lambda>a. Forward a \<and> Backward a) as = []"
      by (simp_all add: filter_empty_conv)
    then show ?thesis using IH b by simp
  qed
qed

text \<open>
  Claim C6 (as the code has it).  For two valid arcs, \<^verbatim>\<open>operator<\<close> compares first the
  direction bucket, in the order forward-only, then forward-and-backward, then
  backward-only, and inside one bucket the other endpoint's id; hence every sorted block of
  valid arcs is its forward-only arcs, followed by its two-way arcs, followed by its
  backward-only arcs.
\<close>

theorem FastArc_less_bucket_order:
  "(Valid x \<and> Valid y \<longrightarrow>
      (arc_less x y \<longleftrightarrow>
           (Forward x \<and> \<not> Backward x \<and> Backward y)
         \<or> (Forward x \<and> Backward x \<and> \<not> Forward y)
         \<or> (Forward x = Forward y \<and> Backward x = Backward y
              \<and> OtherVertexId x < OtherVertexId y)))
   \<and> ((\<forall>a\<in>set as. Valid a) \<and> sorted_block as \<longrightarrow>
        as = filter (\<lambda>a. Forward a \<and> \<not> Backward a) as
            @ filter (\<lambda>a. Forward a \<and> Backward a) as
            @ filter (\<lambda>a. \<not> Forward a \<and> Backward a) as)"
  using arc_less_flags [of x y] sorted_block_buckets [of as] by blast

text \<open>
  The order stated in the specification, two-way arcs before forward-only arcs, is not the
  one of the code: the forward-only arc to vertex 5 is smaller than the two-way arc to
  vertex 3.
\<close>

theorem FastArc_less_spec_order_counterexample:
  "Valid 0xC0000003 \<and> Forward 0xC0000003 \<and> Backward 0xC0000003
   \<and> Valid 0x40000005 \<and> Forward 0x40000005 \<and> \<not> Backward 0x40000005
   \<and> \<not> arc_less 0xC0000003 0x40000005 \<and> arc_less 0x40000005 0xC0000003"
  by (simp add: Valid_def Forward_def Backward_def arc_less_def direction_bucket_def
      OtherVertexId_def)

theorem FastArc_less_bucket_order_witness:
  "Valid 0x40000005 \<and> Valid 0xC0000003 \<and> arc_less 0x40000005 0xC0000003
   \<and> Valid 0x80000001
   \<and> sorted_block [0x40000005, 0xC0000003, 0x80000001]
   \<and> [0x40000005, 0xC0000003, 0x80000001] =
       filter (\<lambda>a. Forward a \<and> \<not> Backward a) [0x40000005, 0xC0000003, 0x80000001]
       @ filter (\<lambda>a. Forward a \<and> Backward a) [0x40000005, 0xC0000003, 0x80000001]
       @ filter (\<lambda>a. \<not> Forward a \<and> Backward a) [0x40000005, 0xC0000003, 0x80000001]"
proof -
  have v: "Valid 0x40000005 \<and> Valid 0xC0000003"
    by (simp add: Valid_def)
  have f: "Forward 0x40000005 \<and> \<not> Backward 0x40000005 \<and> Backward 0xC0000003"
    by (simp add: Forward_def Backward_def)
  have vs: "\<forall>a\<in>set [0x40000005, 0xC0000003, 0x80000001]. Valid a"
    by (simp add: Valid_def)
  have s: "sorted_block [0x40000005, 0xC0000003, 0x80000001]"
    by (simp add: sorted_block_def arc_less_def direction_bucket_def Forward_def
        Backward_def OtherVertexId_def)
  have v3: "Valid 0x80000001"
    by (simp add: Valid_def)
  from FastArc_less_bucket_order [of "0x40000005" "0xC0000003"
      "[0x40000005, 0xC0000003, 0x80000001]"] v f vs s v3
  show ?thesis by blast
qed

section \<open>The trivalency model\<close>

lemma Murmur3Hash_example: "Murmur3Hash 31101982 1 3 1 64 = 3699149388"
  by (simp add: Murmur3Hash_def murmur_round_def murmur_key_def rotl32_def Let_def)

lemma mod_3_less: "unat ((h::32 word) mod 3) < 3"
  by (simp add: unat_mod)

lemma SKIM_Contained_TRIVALENCY_eq:
  "SKIM_Contained_TRIVALENCY randomSeed u v i l =
     Inr (Murmur3Hash randomSeed u v i l mod resolution
            < triprob ! unat (Murmur3Hash randomSeed u v i l mod 3))"
  using mod_3_less [of "Murmur3Hash randomSeed u v i l"]
  by (simp add: SKIM_Contained_TRIVALENCY_def elem_at_def triprob_def)

lemma Oracle_Contained_TRIVALENCY_eq:
  "Oracle_Contained_TRIVALENCY randomSeed u v i l =
     (if unat i < 3
      then Inr (Murmur3Hash randomSeed u v i l mod resolution < triprob ! unat i)
      else Inl Out_of_bounds)"
  by (simp add: Oracle_Contained_TRIVALENCY_def elem_at_def triprob_def)

text \<open>
  Claim C3, at the default random seed 31101982 with \<open>l = 64\<close>, for the arc from vertex 1
  to vertex 3 in instance 1.  The hash is 3699149388, so \<open>h mod 3 = 0\<close> and
  \<open>h mod R = 149388\<close>, below \<open>triprob[0] = 300000\<close>: the predicate of SKIM holds, as
  the claim says.  The predicate of the oracle compares with \<open>triprob[1] = 30000\<close>, the
  entry of the instance, and is false; from instance 3 on it reads past the three entries.
\<close>

theorem Oracle_Contained_TRIVALENCY_differs:
  "Murmur3Hash 31101982 1 3 1 64 mod resolution
       < triprob ! unat (Murmur3Hash 31101982 1 3 1 64 mod 3)
   \<and> SKIM_Contained_TRIVALENCY 31101982 1 3 1 64 = Inr True
   \<and> Oracle_Contained_TRIVALENCY 31101982 1 3 1 64 = Inr False
   \<and> Oracle_Contained_TRIVALENCY 31101982 1 3 3 64 = Inl Out_of_bounds"
  by (simp add: SKIM_Contained_TRIVALENCY_eq Oracle_Contained_TRIVALENCY_eq
      Murmur3Hash_example resolution_def triprob_def)

section \<open>Scanning a sorted block\<close>

lemma takeWhile_none: "\<forall>x\<in>set xs. \<not> P x \<Longrightarrow> takeWhile P xs = []"
  by (cases xs) auto

lemma sorted_block_split:
  assumes "\<forall>a\<in>set as. Valid a" and "sorted_block as"
  obtains F FB B where "as = F @ FB @ B"
    and "\<forall>a\<in>set F. Forward a \<and> \<not> Backward a"
    and "\<forall>a\<in>set FB. Forward a \<and> Backward a"
    and "\<forall>a\<in>set B. \<not> Forward a \<and> Backward a"
proof -
  define F where "F = filter (\<lambda>a. Forward a \<and> \<not> Backward a) as"
  define FB where "FB = filter (\<lambda>a. Forward a \<and> Backward a) as"
  define B where "B = filter (\<lambda>a. \<not> Forward a \<and> Backward a) as"
  have "as = F @ FB @ B"
    unfolding F_def FB_def B_def by (rule sorted_block_buckets [OF assms])
  moreover have "\<forall>a\<in>set F. Forward a \<and> \<not> Backward a"
    by (simp add: F_def)
  moreover have "\<forall>a\<in>set FB. Forward a \<and> Backward a"
    by (simp add: FB_def)
  moreover have "\<forall>a\<in>set B. \<not> Forward a \<and> Backward a"
    by (simp add: B_def)
  ultimately show thesis by (rule that)
qed

lemma takeWhile_Forward_sorted:
  assumes "\<forall>a\<in>set as. Valid a" and "sorted_block as"
  shows "takeWhile Forward as = filter Forward as"
proof -
  from assms obtain F FB B where dec: "as = F @ FB @ B"
    and F: "\<forall>a\<in>set F. Forward a \<and> \<not> Backward a"
    and FB: "\<forall>a\<in>set FB. Forward a \<and> Backward a"
    and B: "\<forall>a\<in>set B. \<not> Forward a \<and> Backward a"
    by (rule sorted_block_split)
  have "takeWhile Forward ((F @ FB) @ B) = (F @ FB) @ takeWhile Forward B"
    using F FB by (intro takeWhile_append2) auto
  moreover have "takeWhile Forward B = []"
    using B by (intro takeWhile_none) simp
  moreover have "filter Forward F = F" "filter Forward FB = FB" "filter Forward B = []"
    using F FB B by (simp_all add: filter_id_conv filter_empty_conv)
  ultimately show ?thesis unfolding dec by simp
qed

lemma takeWhile_Backward_rev_sorted:
  assumes "\<forall>a\<in>set as. Valid a" and "sorted_block as"
  shows "takeWhile Backward (rev as) = rev (filter Backward as)"
proof -
  from assms obtain F FB B where dec: "as = F @ FB @ B"
    and F: "\<forall>a\<in>set F. Forward a \<and> \<not> Backward a"
    and FB: "\<forall>a\<in>set FB. Forward a \<and> Backward a"
    and B: "\<forall>a\<in>set B. \<not> Forward a \<and> Backward a"
    by (rule sorted_block_split)
  have "takeWhile Backward ((rev B @ rev FB) @ rev F)
          = (rev B @ rev FB) @ takeWhile Backward (rev F)"
    using B FB by (intro takeWhile_append2) auto
  moreover have "takeWhile Backward (rev F) = []"
    using F by (intro takeWhile_none) simp
  moreover have "filter Backward F = []" "filter Backward FB = FB" "filter Backward B = B"
    using F FB B by (simp_all add: filter_id_conv filter_empty_conv)
  ultimately show ?thesis unfolding dec by simp
qed
text \<open>
  Claim C5.  In a block of valid arcs that is sorted by \<^verbatim>\<open>operator<\<close>, the forward scan
  (from the first arc, stopping at the first arc that is not forward) sees exactly the
  forward arcs of the vertex, and the backward scan of the reverse search (stopping at the
  first arc that is not backward) sees exactly its backward arcs; each arc is seen as often
  as it occurs in the block.
\<close>

theorem scans_visit_flagged_arcs:
  assumes "\<forall>a\<in>set (incident_arcs g v). Valid a"
    and "sorted_block (incident_arcs g v)"
  shows "forward_scan g v = filter Forward (incident_arcs g v)
       \<and> set (forward_scan g v) = {a \<in> set (incident_arcs g v). Forward a}
       \<and> backward_scan g v = rev (filter Backward (incident_arcs g v))
       \<and> set (backward_scan g v) = {a \<in> set (incident_arcs g v). Backward a}"
  using takeWhile_Forward_sorted [OF assms] takeWhile_Backward_rev_sorted [OF assms]
  by (simp add: forward_scan_def backward_scan_def FORALL_INCIDENT_ARCS_def
      FORALL_INCIDENT_ARCS_BACKWARD_def)

theorem scans_visit_flagged_arcs_witness:
  "forward_scan \<lparr>NumVertices = 1, NumArcs = 3, IsDirected = True, Vertices = [0, 3],
       Arcs = [0x40000005, 0xC0000003, 0x80000001, 1]\<rparr> 0 = [0x40000005, 0xC0000003]
   \<and> backward_scan \<lparr>NumVertices = 1, NumArcs = 3, IsDirected = True, Vertices = [0, 3],
       Arcs = [0x40000005, 0xC0000003, 0x80000001, 1]\<rparr> 0 = [0x80000001, 0xC0000003]"
proof -
  let ?g = "\<lparr>NumVertices = 1, NumArcs = 3, IsDirected = True, Vertices = [0, 3],
       Arcs = [0x40000005, 0xC0000003, 0x80000001, 1]\<rparr>"
  have blk: "incident_arcs ?g 0 = [0x40000005, 0xC0000003, 0x80000001]"
    by (simp add: incident_arcs_def)
  have v: "\<forall>a\<in>set (incident_arcs ?g 0). Valid a"
    by (simp only: blk) (simp add: Valid_def)
  have s: "sorted_block (incident_arcs ?g 0)"
    by (simp only: blk) (simp add: sorted_block_def arc_less_def direction_bucket_def
        Forward_def Backward_def OtherVertexId_def)
  have f: "filter Forward (incident_arcs ?g 0) = [0x40000005, 0xC0000003]"
    by (simp only: blk) (simp add: Forward_def)
  have b: "filter Backward (incident_arcs ?g 0) = [0xC0000003, 0x80000001]"
    by (simp only: blk) (simp add: Backward_def)
  from scans_visit_flagged_arcs [OF v s] show ?thesis
    by (simp only: f b rev.simps append.simps)
qed

section \<open>The uniform seed sampler\<close>

lemma UNIFORM_loop_eq:
  "UNIFORM_loop draw c S pos = (S @ map draw [pos ..< pos + c], pos + c)"
proof (induction c arbitrary: S pos)
  case 0
  show ?case by simp
next
  case (Suc c)
  have "[pos ..< pos + Suc c] = pos # [Suc pos ..< Suc pos + c]"
    by (simp add: upt_rec)
  then show ?case by (simp add: Suc.IH)
qed

text \<open>
  Claim C9 (as the code has it).  For \<open>N \<le> n\<close>, from any state of the generator, and
  with a distribution that returns vertex ids below \<open>n\<close>, the uniform sampler returns and
  appends exactly \<open>N\<close> vertex ids of the domain \<open>[0, n)\<close> to the empty seed set.  It
  draws with replacement: nothing makes the ids distinct.
\<close>

theorem GenerateSeetSet_UNIFORM_size_and_range:
  assumes "N \<le> n" and "n < 2 ^ 32" and "\<forall>j. unat (draw j) < n"
  shows "\<exists>S. GenerateSeetSet_UNIFORM draw [] N pos = Some (S, pos + N)
             \<and> length S = N \<and> (\<forall>s\<in>set S. unat s < n)"
proof -
  from assms(1,2) have "N < 2 ^ 32" by simp
  then have "GenerateSeetSet_UNIFORM draw [] N pos
               = Some (map draw [pos ..< pos + N], pos + N)"
    by (simp add: GenerateSeetSet_UNIFORM_def UNIFORM_loop_eq)
  moreover have "length (map draw [pos ..< pos + N]) = N" by simp
  moreover have "\<forall>s\<in>set (map draw [pos ..< pos + N]). unat s < n"
    using assms(3) by auto
  ultimately show ?thesis by blast
qed

theorem GenerateSeetSet_UNIFORM_size_and_range_witness:
  "GenerateSeetSet_UNIFORM (\<lambda>j. of_nat (j mod 2)) [] 3 0 = Some ([0, 1, 0], 3)"
proof -
  have d: "\<forall>j. unat (of_nat (j mod 2) :: 32 word) < 3"
  proof
    fix j :: nat
    have "j mod 2 = 0 \<or> j mod 2 = 1" by auto
    then show "unat (of_nat (j mod 2) :: 32 word) < 3" by auto
  qed
  from GenerateSeetSet_UNIFORM_size_and_range [of 3 3 "\<lambda>j. of_nat (j mod 2)" 0, OF _ _ d]
  obtain S where "GenerateSeetSet_UNIFORM (\<lambda>j. of_nat (j mod 2)) [] 3 0 = Some (S, 3)"
    by auto
  moreover have "GenerateSeetSet_UNIFORM (\<lambda>j. of_nat (j mod 2)) [] 3 0 = Some ([0, 1, 0], 3)"
    by (simp add: GenerateSeetSet_UNIFORM_def numeral_3_eq_3)
  ultimately show ?thesis by simp
qed

text \<open>
  With three vertices and \<open>N = 3\<close>, a generator whose first three values are 0, 1, 0
  gives the seed set \<open>[0, 1, 0]\<close>, in which vertex 0 occurs twice.
\<close>

theorem GenerateSeetSet_UNIFORM_distinct_counterexample:
  "GenerateSeetSet_UNIFORM (\<lambda>j. of_nat (j mod 2)) [] 3 0 = Some ([0, 1, 0], 3)
   \<and> \<not> distinct [0 :: 32 word, 1, 0]"
  by (simp add: GenerateSeetSet_UNIFORM_def numeral_3_eq_3)

section \<open>The estimator on the empty seed set\<close>

lemma Estimator_Z_empty:
  "Estimator_Z dbg n sketches [] k l = Inl (if dbg then Assertion_failed else Out_of_bounds)"
  by (simp add: Estimator_Z_def Assert_def merge_rounds.simps)

text \<open>
  Claim C8 (as the code has it).  For every graph and all parameters, the estimator does not
  return a value for the empty seed set.  The offsets \<^verbatim>\<open>sourceI\<close> hold one entry only, so
  \<^verbatim>\<open>Assert(sourceI.size() >= 2)\<close> fails; with assertions compiled out no round runs and
  \<^verbatim>\<open>pop_back\<close> is called on the empty buffer \<^verbatim>\<open>sourceZ\<close>.
\<close>

theorem Estimator_empty_seed_set_fails:
  "Estimator ops dbg n sketches [] k l = Inl (if dbg then Assertion_failed else Out_of_bounds)"
proof -
  have "Estimator_Z dbg n sketches [] k l
          = Inl (if dbg then Assertion_failed else Out_of_bounds)"
    by (rule Estimator_Z_empty)
  then show ?thesis
    by (simp add: Estimator_def)
qed

text \<open>
  On the graph with one vertex, whose sketch is \<open>[0]\<close>, with \<open>k = l = 1\<close>, the
  estimator of the empty seed set returns neither 0 nor any other value, with assertions
  and without, whatever the arithmetic of the doubles.
\<close>

theorem Estimator_empty_seed_set_counterexample:
  "(\<forall>ops x. Estimator ops True 1 [[0]] [] 1 1 \<noteq> Inr x)
   \<and> (\<forall>ops x. Estimator ops False 1 [[0]] [] 1 1 \<noteq> Inr x)"
  by (simp add: Estimator_def Estimator_Z_def Assert_def merge_rounds.simps)

section \<open>The merge of the estimator\<close>

lemma drop_nth_first:
  assumes "drop f Z = x # r"
  shows "f < length Z" and "Z ! f = x" and "drop (f + 1) Z = r"
proof -
  from assms show f: "f < length Z" by (cases "f < length Z") auto
  from assms f show "Z ! f = x" by (simp add: hd_drop_conv_nth [symmetric])
  from assms show "drop (f + 1) Z = r" by (metis Suc_eq_plus1 drop_Suc list.sel(3) tl_drop)
qed

lemma merge2_Nil2: "merge2 xs [] = xs"
  by (cases xs) simp_all

lemma merge_loop_correct:
  assumes "drop f1 Z = xs @ (s, 0) # r1" and "drop f2 Z = ys @ (s, 0) # r2"
    and "list_all (\<lambda>z. fst z < s) xs" and "list_all (\<lambda>z. fst z < s) ys"
  shows "merge_loop s Z f1 f2 d = Inr (d @ merge2 xs ys @ [(s, 0)])"
  using assms
proof (induction "length xs + length ys" arbitrary: xs ys f1 f2 d rule: less_induct)
  case less
  show ?case
  proof (cases xs)
    case xNil: Nil
    from less.prems(1) xNil have a: "f1 < length Z" "Z ! f1 = (s, 0)"
      by (auto dest: drop_nth_first)
    show ?thesis
    proof (cases ys)
      case Nil
      from less.prems(2) Nil have b: "f2 < length Z" "Z ! f2 = (s, 0)"
        by (auto dest: drop_nth_first)
      show ?thesis using a b Nil xNil by (subst merge_loop.simps) simp
    next
      case (Cons y ys')
      from less.prems(2) Cons
      have b: "f2 < length Z" "Z ! f2 = y" "drop (f2 + 1) Z = ys' @ (s, 0) # r2"
        by (auto dest: drop_nth_first)
      from less.prems(4) Cons have y: "fst y < s" "list_all (\<lambda>z. fst z < s) ys'" by auto
      have "merge_loop s Z f1 (f2 + 1) (d @ [y]) = Inr ((d @ [y]) @ merge2 xs ys' @ [(s, 0)])"
        by (rule less.hyps [OF _ less.prems(1) b(3) less.prems(3) y(2)]) (simp add: Cons)
      then show ?thesis using a b y xNil Cons by (subst merge_loop.simps) simp
    qed
  next
    case xCons: (Cons x xs')
    from less.prems(1) xCons
    have a: "f1 < length Z" "Z ! f1 = x" "drop (f1 + 1) Z = xs' @ (s, 0) # r1"
      by (auto dest: drop_nth_first)
    from less.prems(3) xCons have x: "fst x < s" "list_all (\<lambda>z. fst z < s) xs'" by auto
    show ?thesis
    proof (cases ys)
      case Nil
      from less.prems(2) Nil have b: "f2 < length Z" "Z ! f2 = (s, 0)"
        by (auto dest: drop_nth_first)
      have "merge_loop s Z (f1 + 1) f2 (d @ [x]) = Inr ((d @ [x]) @ merge2 xs' ys @ [(s, 0)])"
        by (rule less.hyps [OF _ a(3) less.prems(2) x(2) less.prems(4)]) (simp add: xCons)
      then show ?thesis using a b x xCons Nil
        by (subst merge_loop.simps) (simp add: merge2_Nil2)
    next
      case (Cons y ys')
      from less.prems(2) Cons
      have b: "f2 < length Z" "Z ! f2 = y" "drop (f2 + 1) Z = ys' @ (s, 0) # r2"
        by (auto dest: drop_nth_first)
      from less.prems(4) Cons have y: "fst y < s" "list_all (\<lambda>z. fst z < s) ys'" by auto
      have 1: "merge_loop s Z (f1 + 1) f2 (d @ [x]) = Inr ((d @ [x]) @ merge2 xs' ys @ [(s, 0)])"
        by (rule less.hyps [OF _ a(3) less.prems(2) x(2) less.prems(4)]) (simp add: xCons)
      have 2: "merge_loop s Z f1 (f2 + 1) (d @ [y]) = Inr ((d @ [y]) @ merge2 xs ys' @ [(s, 0)])"
        by (rule less.hyps [OF _ less.prems(1) b(3) less.prems(3) y(2)]) (simp add: Cons)
      have 3: "merge_loop s Z (f1 + 1) (f2 + 1) d' = Inr (d' @ merge2 xs' ys' @ [(s, 0)])" for d'
        by (rule less.hyps [OF _ a(3) b(3) x(2) y(2)]) (simp add: Cons xCons)
      show ?thesis using a(1,2) b(1,2) x(1) y(1) 1 2 3 unfolding xCons Cons
        by (subst merge_loop.simps) simp
    qed
  qed
qed
lemma flat_Nil [simp]: "flat s [] = []"
  by (simp add: flat_def)

lemma flat_Cons [simp]: "flat s (c # cs) = c @ (s, 0) # flat s cs"
  by (simp add: flat_def)

lemma flat_append: "flat s (as @ bs) = flat s as @ flat s bs"
  by (simp add: flat_def)

lemma offsets_append:
  "offsets (as @ bs) a = offsets as a @ offsets bs (a + length (flat s as))"
  by (induction as arbitrary: a) (simp_all add: add.assoc)

lemma length_offsets [simp]: "length (offsets cs a) = length cs"
  by (induction cs arbitrary: a) simp_all

lemma nth_offsets:
  "i \<le> length cs \<Longrightarrow>
     (offsets cs a @ [a + length (flat s cs)]) ! i = a + length (flat s (take i cs))"
proof (induction cs arbitrary: a i)
  case Nil
  then show ?case by simp
next
  case (Cons c cs)
  show ?case
  proof (cases i)
    case 0
    then show ?thesis by simp
  next
    case (Suc j)
    with Cons.prems have "j \<le> length cs" by simp
    from Cons.IH [OF this, of "a + length c + 1"] Suc show ?thesis
      by (simp add: add.assoc)
  qed
qed

lemma drop_flat:
  "i \<le> length cs \<Longrightarrow> drop (length (flat s (take i cs))) (flat s cs) = flat s (drop i cs)"
proof -
  assume "i \<le> length cs"
  have "flat s cs = flat s (take i cs) @ flat s (drop i cs)"
    by (simp add: flat_append [symmetric])
  then show ?thesis by (metis append_eq_conv_conj)
qed

lemma collect_correct:
  assumes "\<forall>i\<in>set S. i < length sketches \<and> sketch_entries k nl (sketches ! i) = Inr (f i)"
  shows "collect k nl sketches S Z I
           = Inr (Z @ flat nl (map f S), I @ offsets (map f S) (length Z))"
  using assms
proof (induction S arbitrary: Z I)
  case Nil
  show ?case by simp
next
  case (Cons i S)
  then show ?case by (simp add: elem_at_def)
qed

lemma merge_chunks_correct:
  assumes "\<forall>c\<in>set cs. list_all (\<lambda>z. fst z < s) c"
    and "dbg \<longrightarrow> length cs \<le> 1"
    and "i \<le> length cs"
  shows "merge_chunks dbg s (flat s cs) (offsets cs 0 @ [length (flat s cs)]) (length cs) i dZ dI
           = Inr (dZ @ flat s (pairup (drop i cs)), dI @ offsets (pairup (drop i cs)) (length dZ))"
  using assms(3)
proof (induction "length cs - i" arbitrary: i dZ dI rule: less_induct)
  case less
  let ?Z = "flat s cs" and ?I = "offsets cs 0 @ [length (flat s cs)]"
  have I_at: "elem_at ?I j = Inr (length (flat s (take j cs)))" if "j \<le> length cs" for j
    using that nth_offsets [of j cs 0 s] by (simp add: elem_at_def)
  consider (fin) "i = length cs" | (one) "i + 1 = length cs" | (two) "i + 2 \<le> length cs"
    using less.prems by linarith
  then show ?case
  proof cases
    case fin
    then show ?thesis by (subst merge_chunks.simps) simp
  next
    case one
    then have d: "drop i cs = [cs ! i]"
      by (metis Cons_nth_drop_Suc Suc_eq_plus1 drop_all lessI order_refl)
    have f1: "elem_at ?I i = Inr (length (flat s (take i cs)))"
      using one by (intro I_at) simp
    have f2: "elem_at ?I (i + 1) = Inr (length ?Z)"
      using one I_at [of "i + 1"] by simp
    have "?Z = flat s (take i cs) @ flat s (drop i cs)"
      by (simp add: flat_append [symmetric])
    then have Z: "?Z = flat s (take i cs) @ cs ! i @ [(s, 0)]"
      by (simp add: d)
    have dr: "drop (length (flat s (take i cs))) ?Z = cs ! i @ [(s, 0)]"
      using drop_flat [of i cs s] one d by simp
    have len: "length ?Z = length (flat s (take i cs)) + (length (cs ! i) + 1)"
      by (subst Z) simp
    have cp: "copy_range ?Z (length (flat s (take i cs))) (length ?Z) = Inr (cs ! i @ [(s, 0)])"
      unfolding copy_range_def dr by (simp add: len)
    have rest: "merge_chunks dbg s ?Z ?I (length cs) (i + 2) dZ' dI' = Inr (dZ', dI')" for dZ' dI'
      using one by (subst merge_chunks.simps) simp
    show ?thesis
      using one f1 f2 cp rest
      by (subst merge_chunks.simps) (simp add: d Let_def)
  next
    case two
    then have nd: "\<not> dbg" using assms(2) by auto
    from two obtain rest where d: "drop i cs = cs ! i # cs ! (i + 1) # rest"
      and d2: "drop (i + 2) cs = rest"
      by (metis Cons_nth_drop_Suc Suc_eq_plus1 add_2_eq_Suc' less_eq_Suc_le not_less_eq_eq
          le_imp_less_Suc nat_less_le drop_drop add.commute Suc_le_lessD lessI less_le_trans)
    have f1: "elem_at ?I i = Inr (length (flat s (take i cs)))"
      using two by (intro I_at) simp
    have f2: "elem_at ?I (i + 1) = Inr (length (flat s (take (i + 1) cs)))"
      using two by (intro I_at) simp
    have f3: "elem_at ?I (i + 2) = Inr (length (flat s (take (i + 2) cs)))"
      using two by (intro I_at) simp
    have dr1: "drop (length (flat s (take i cs))) ?Z
                 = cs ! i @ (s, 0) # flat s (cs ! (i + 1) # rest)"
      using drop_flat [of i cs s] two d by simp
    have d1: "drop (i + 1) cs = cs ! (i + 1) # rest"
      using d by (metis Suc_eq_plus1 drop_Suc list.sel(3) tl_drop)
    have dr2: "drop (length (flat s (take (i + 1) cs))) ?Z = cs ! (i + 1) @ (s, 0) # flat s rest"
      using drop_flat [of "i + 1" cs s] two d1 by simp
    have in1: "cs ! i \<in> set cs" and in2: "cs ! (i + 1) \<in> set cs"
      using two by simp_all
    have ml: "merge_loop s ?Z (length (flat s (take i cs))) (length (flat s (take (i + 1) cs))) dZ
                = Inr (dZ @ merge2 (cs ! i) (cs ! (i + 1)) @ [(s, 0)])"
      using assms(1) in1 in2 by (intro merge_loop_correct [OF dr1 dr2]) auto
    have IH: "merge_chunks dbg s ?Z ?I (length cs) (i + 2) dZ' dI'
                = Inr (dZ' @ flat s (pairup rest), dI' @ offsets (pairup rest) (length dZ'))"
      for dZ' dI'
      using less.hyps [of "i + 2" dZ' dI'] two d2 by simp
    show ?thesis
      using two f1 f2 f3 ml nd IH
      by (subst merge_chunks.simps) (simp add: d Let_def Assert_def)
  qed
qed

lemma top_entries_subset: "top_entries P \<subseteq> P"
  by (auto simp: top_entries_def)

lemma top_entries_inj: "inj_on fst P \<Longrightarrow> top_entries P = P"
  by (auto simp: top_entries_def inj_on_def)

lemma top_entries_insert_fresh:
  "fst x \<notin> fst ` P \<Longrightarrow> top_entries (insert x P) = insert x (top_entries P)"
  by (auto simp: top_entries_def image_iff) 

lemma top_entries_insert2:
  "fst x = fst y \<Longrightarrow> fst x \<notin> fst ` P \<Longrightarrow> snd y \<le> snd x
     \<Longrightarrow> top_entries (insert x (insert y P)) = insert x (top_entries P)"
  by (auto simp: top_entries_def image_iff prod_eq_iff)

lemma top_entries_exists:
  assumes "finite A" and "z \<in> A"
  shows "\<exists>m \<in> top_entries A. fst m = fst z \<and> snd z \<le> snd m"
proof -
  let ?T = "snd ` {w \<in> A. fst w = fst z}"
  have fin: "finite ?T" using assms(1) by simp
  have "snd z \<in> ?T" using assms(2) by (intro imageI) simp
  then have ne: "?T \<noteq> {}" by blast
  from Max_in [OF fin ne] obtain m where m: "m \<in> A" "fst m = fst z" "snd m = Max ?T"
    by auto
  have "\<forall>w\<in>A. fst w = fst m \<longrightarrow> snd w \<le> snd m"
    using m fin by (auto intro!: Max_ge)
  with m have "m \<in> top_entries A" by (simp add: top_entries_def)
  moreover have "snd z \<le> snd m" using m assms(2) fin by (auto intro!: Max_ge)
  ultimately show ?thesis using m(2) by blast
qed

lemma top_entries_Un_top:
  assumes "finite A"
  shows "top_entries (top_entries A \<union> B) = top_entries (A \<union> B)"
proof (rule set_eqI, rule iffI)
  fix z assume z: "z \<in> top_entries (top_entries A \<union> B)"
  then have zin: "z \<in> top_entries A \<union> B"
    and zmax: "\<forall>w\<in>top_entries A \<union> B. fst w = fst z \<longrightarrow> snd w \<le> snd z"
    by (auto simp: top_entries_def)
  have "\<forall>w\<in>A \<union> B. fst w = fst z \<longrightarrow> snd w \<le> snd z"
  proof (intro ballI impI)
    fix w assume w: "w \<in> A \<union> B" "fst w = fst z"
    show "snd w \<le> snd z"
    proof (cases "w \<in> B")
      case True
      with zmax w show ?thesis by auto
    next
      case False
      with w have "w \<in> A" by auto
      from top_entries_exists [OF assms this] obtain m
        where "m \<in> top_entries A" "fst m = fst w" "snd w \<le> snd m" by auto
      with zmax w(2) show ?thesis by fastforce
    qed
  qed
  moreover have "z \<in> A \<union> B" using zin top_entries_subset by auto
  ultimately show "z \<in> top_entries (A \<union> B)" by (simp add: top_entries_def)
next
  fix z assume z: "z \<in> top_entries (A \<union> B)"
  then have zin: "z \<in> A \<union> B"
    and zmax: "\<forall>w\<in>A \<union> B. fst w = fst z \<longrightarrow> snd w \<le> snd z"
    by (auto simp: top_entries_def)
  have "z \<in> top_entries A \<union> B"
    using zin zmax by (auto simp: top_entries_def)
  moreover have "\<forall>w\<in>top_entries A \<union> B. fst w = fst z \<longrightarrow> snd w \<le> snd z"
    using zmax top_entries_subset by blast
  ultimately show "z \<in> top_entries (top_entries A \<union> B)" by (simp add: top_entries_def)
qed

lemma set_merge2_subset: "set (merge2 a b) \<subseteq> set a \<union> set b"
  by (induction a b rule: merge2.induct) auto

lemma fst_set_merge2: "fst ` set (merge2 a b) = fst ` set a \<union> fst ` set b"
  by (induction a b rule: merge2.induct) (auto simp: image_iff)

lemma sorted_merge2:
  assumes "sorted_wrt (<) (map fst a)" and "sorted_wrt (<) (map fst b)"
  shows "sorted_wrt (<) (map fst (merge2 a b))"
  using assms
proof (induction a b rule: merge2.induct)
  case (3 x xs y ys)
  have sub1: "fst ` set (merge2 xs (y # ys)) = fst ` set xs \<union> fst ` set (y # ys)"
    and sub2: "fst ` set (merge2 (x # xs) ys) = fst ` set (x # xs) \<union> fst ` set ys"
    and sub3: "fst ` set (merge2 xs ys) = fst ` set xs \<union> fst ` set ys"
    by (rule fst_set_merge2)+
  from "3.prems" have x: "\<forall>z\<in>set xs. fst x < fst z" and y: "\<forall>z\<in>set ys. fst y < fst z"
    and sx: "sorted_wrt (<) (map fst xs)" and sy: "sorted_wrt (<) (map fst ys)"
    by auto
  show ?case
  proof (cases "fst x < fst y")
    case True
    have "\<forall>r\<in>fst ` set (merge2 xs (y # ys)). fst x < r"
      unfolding sub1 using x y True by auto
    with True "3.IH"(1) [OF True sx "3.prems"(2)] show ?thesis by auto
  next
    case nlt: False
    show ?thesis
    proof (cases "fst y < fst x")
      case True
      have "\<forall>r\<in>fst ` set (merge2 (x # xs) ys). fst y < r"
        unfolding sub2 using x y True by auto
      with True nlt "3.IH"(2) [OF nlt True "3.prems"(1) sy] show ?thesis by auto
    next
      case False
      with nlt have eq: "fst x = fst y" by simp
      have "\<forall>r\<in>fst ` set (merge2 xs ys). fst x < r"
        unfolding sub3 using x y eq by auto
      then have "\<forall>z\<in>set (merge2 xs ys). fst x < fst z \<and> fst y < fst z"
        using eq by auto
      moreover have "sorted_wrt (<) (map fst (merge2 xs ys))"
        using "3.IH"(3,4) nlt False sx sy by (cases "snd y < snd x") auto
      ultimately show ?thesis using nlt False by auto
    qed
  qed
qed simp_all

lemma sorted_fst_inj: "sorted_wrt (<) (map fst (a :: zentry list)) \<Longrightarrow> inj_on fst (set a)"
proof -
  assume "sorted_wrt (<) (map fst a)"
  then have "distinct (map fst a)" by (simp add: strict_sorted_iff)
  then show ?thesis by (simp add: distinct_map)
qed

lemma set_merge2_top:
  assumes "sorted_wrt (<) (map fst a)" and "sorted_wrt (<) (map fst b)"
  shows "set (merge2 a b) = top_entries (set a \<union> set b)"
  using assms
proof (induction a b rule: merge2.induct)
  case (1 ys)
  then show ?case by (simp add: top_entries_inj sorted_fst_inj)
next
  case (2 x xs)
  then have "inj_on fst (set (x # xs))" by (intro sorted_fst_inj)
  then show ?case by (simp add: top_entries_inj)
next
  case (3 x xs y ys)
  from "3.prems" have x: "\<forall>z\<in>set xs. fst x < fst z" and y: "\<forall>z\<in>set ys. fst y < fst z"
    and sx: "sorted_wrt (<) (map fst xs)" and sy: "sorted_wrt (<) (map fst ys)"
    by auto
  show ?case
  proof (cases "fst x < fst y")
    case True
    have fresh: "fst x \<notin> fst ` (set xs \<union> set (y # ys))"
      using x y True by fastforce
    have "set (merge2 (x # xs) (y # ys)) = insert x (top_entries (set xs \<union> set (y # ys)))"
      using True "3.IH"(1) [OF True sx "3.prems"(2)] by simp
    also have "\<dots> = top_entries (insert x (set xs \<union> set (y # ys)))"
      by (rule top_entries_insert_fresh [OF fresh, symmetric])
    also have "insert x (set xs \<union> set (y # ys)) = set (x # xs) \<union> set (y # ys)"
      by auto
    finally show ?thesis .
  next
    case nlt: False
    show ?thesis
    proof (cases "fst y < fst x")
      case True
      have fresh: "fst y \<notin> fst ` (set (x # xs) \<union> set ys)"
        using x y True by fastforce
      have "set (merge2 (x # xs) (y # ys)) = insert y (top_entries (set (x # xs) \<union> set ys))"
        using True nlt "3.IH"(2) [OF nlt True "3.prems"(1) sy] by simp
      also have "\<dots> = top_entries (insert y (set (x # xs) \<union> set ys))"
        by (rule top_entries_insert_fresh [OF fresh, symmetric])
      also have "insert y (set (x # xs) \<union> set ys) = set (x # xs) \<union> set (y # ys)"
        by auto
      finally show ?thesis .
    next
      case False
      with nlt have eq: "fst x = fst y" by simp
      have fresh: "fst x \<notin> fst ` (set xs \<union> set ys)" "fst y \<notin> fst ` (set xs \<union> set ys)"
        using x y eq by fastforce+
      have U: "set (x # xs) \<union> set (y # ys) = insert x (insert y (set xs \<union> set ys))"
        "set (x # xs) \<union> set (y # ys) = insert y (insert x (set xs \<union> set ys))"
        by auto
      show ?thesis
      proof (cases "snd y < snd x")
        case True
        have "set (merge2 (x # xs) (y # ys)) = insert x (top_entries (set xs \<union> set ys))"
          using True nlt False "3.IH"(3) [OF nlt False True sx sy] by simp
        also have "\<dots> = top_entries (insert x (insert y (set xs \<union> set ys)))"
          using True by (intro top_entries_insert2 [OF eq fresh(1), symmetric]) simp
        finally show ?thesis by (simp only: U(1))
      next
        case le: False
        have "set (merge2 (x # xs) (y # ys)) = insert y (top_entries (set xs \<union> set ys))"
          using le nlt False "3.IH"(4) [OF nlt False le sx sy] by simp
        also have "\<dots> = top_entries (insert y (insert x (set xs \<union> set ys)))"
          using le by (intro top_entries_insert2 [OF eq [symmetric] fresh(2), symmetric]) simp
        finally show ?thesis by (simp only: U(2))
      qed
    qed
  qed
qed

lemma chunk_merge2: "chunk s a \<Longrightarrow> chunk s b \<Longrightarrow> chunk s (merge2 a b)"
  using set_merge2_subset [of a b]
  by (auto simp: chunk_def sorted_merge2 list_all_iff)

lemma pairup_chunks:
  "\<forall>c\<in>set cs. chunk s c \<Longrightarrow> \<forall>c\<in>set (pairup cs). chunk s c"
  by (induction cs rule: pairup.induct) (auto simp: chunk_merge2)

lemma length_pairup: "length (pairup cs) = (length cs + 1) div 2"
  by (induction cs rule: pairup.induct) simp_all

lemma top_entries_Un_cong:
  assumes "finite B" and "finite B'" and "top_entries B = top_entries B'"
  shows "top_entries (A \<union> B) = top_entries (A \<union> B')"
proof -
  have "top_entries (A \<union> B) = top_entries (top_entries B \<union> A)"
    using top_entries_Un_top [OF assms(1), of A] by (simp add: Un_commute)
  also have "\<dots> = top_entries (top_entries B' \<union> A)" by (simp add: assms(3))
  also have "\<dots> = top_entries (A \<union> B')"
    using top_entries_Un_top [OF assms(2), of A] by (simp add: Un_commute)
  finally show ?thesis .
qed

lemma pairup_top:
  assumes "\<forall>c\<in>set cs. chunk s c"
  shows "top_entries (\<Union> (set ` set (pairup cs))) = top_entries (\<Union> (set ` set cs))"
  using assms
proof (induction cs rule: pairup.induct)
  case (3 a b cs)
  let ?P = "\<Union> (set ` set (pairup cs))" and ?C = "\<Union> (set ` set cs)"
  from "3.prems" have sa: "sorted_wrt (<) (map fst a)" and sb: "sorted_wrt (<) (map fst b)"
    by (auto simp: chunk_def)
  have IH: "top_entries ?P = top_entries ?C" using 3 by simp
  have "top_entries (\<Union> (set ` set (pairup (a # b # cs))))
          = top_entries (top_entries (set a \<union> set b) \<union> ?P)"
    by (simp add: set_merge2_top [OF sa sb])
  also have "\<dots> = top_entries ((set a \<union> set b) \<union> ?P)"
    by (rule top_entries_Un_top) simp
  also have "\<dots> = top_entries ((set a \<union> set b) \<union> ?C)"
    by (rule top_entries_Un_cong [OF _ _ IH]) auto
  finally show ?case by (simp add: Un_assoc)
qed simp_all

lemma chunk_ranks: "chunk s c \<Longrightarrow> list_all (\<lambda>z. fst z < s) c"
  by (simp add: chunk_def)

lemma merge_round_correct:
  assumes "\<forall>c\<in>set cs. chunk s c" and "dbg \<longrightarrow> length cs \<le> 1"
  shows "merge_round dbg s (flat s cs) (offsets cs 0 @ [length (flat s cs)])
           = Inr (flat s (pairup cs), offsets (pairup cs) 0 @ [length (flat s (pairup cs))])"
proof -
  have "\<forall>c\<in>set cs. list_all (\<lambda>z. fst z < s) c"
    using assms(1) by (auto dest: chunk_ranks)
  from merge_chunks_correct [OF this assms(2), of 0 "[]" "[]"]
  show ?thesis by (simp add: merge_round_def)
qed

lemma merge_rounds_correct:
  assumes "\<forall>c\<in>set cs. chunk s c" and "dbg \<longrightarrow> length cs \<le> 1" and "cs \<noteq> []"
  shows "\<exists>c. merge_rounds dbg s (flat s cs) (offsets cs 0 @ [length (flat s cs)])
                = Inr (c @ [(s, 0)], [0, length c + 1])
             \<and> chunk s c \<and> set c = top_entries (\<Union> (set ` set cs))"
  using assms
proof (induction "length cs" arbitrary: cs rule: less_induct)
  case less
  show ?case
  proof (cases "length cs = 1")
    case True
    then obtain c where cs: "cs = [c]" by (cases cs) auto
    with less.prems(1) have c: "chunk s c" by simp
    then have "inj_on fst (set c)" by (simp add: chunk_def sorted_fst_inj)
    then have "set c = top_entries (\<Union> (set ` set cs))"
      by (simp add: cs top_entries_inj)
    moreover have "merge_rounds dbg s (flat s cs) (offsets cs 0 @ [length (flat s cs)])
                = Inr (c @ [(s, 0)], [0, length c + 1])"
      by (subst merge_rounds.simps) (simp add: cs)
    ultimately show ?thesis using c by blast
  next
    case False
    moreover have "length cs \<noteq> 0" using less.prems(3) by simp
    ultimately have len: "2 \<le> length cs" by linarith
    then have nd: "\<not> dbg" using less.prems(2) by auto
    have lp: "length (pairup cs) < length cs" "pairup cs \<noteq> []"
      using len length_pairup [of cs] by (auto simp: length_0_conv [symmetric] simp del: length_0_conv)
    from less.hyps [OF lp(1) pairup_chunks [OF less.prems(1)] _ lp(2)] nd
    obtain c where c: "merge_rounds dbg s (flat s (pairup cs))
                         (offsets (pairup cs) 0 @ [length (flat s (pairup cs))])
                         = Inr (c @ [(s, 0)], [0, length c + 1])"
      "chunk s c" "set c = top_entries (\<Union> (set ` set (pairup cs)))"
      by auto
    have "merge_rounds dbg s (flat s cs) (offsets cs 0 @ [length (flat s cs)])
            = Inr (c @ [(s, 0)], [0, length c + 1])"
      using len c(1) merge_round_correct [OF less.prems(1,2)]
      by (subst merge_rounds.simps) simp
    moreover have "set c = top_entries (\<Union> (set ` set cs))"
      using c(3) pairup_top [OF less.prems(1)] by simp
    ultimately show ?thesis using c(2) by blast
  qed
qed

lemma Estimator_Z_correct:
  assumes "\<forall>i\<in>set S. i < length sketches \<and> sketch_entries k (n * l) (sketches ! i) = Inr (f i)"
    and "\<forall>i\<in>set S. chunk (n * l) (f i)"
    and "dbg \<longrightarrow> length S \<le> 1" and "S \<noteq> []"
  shows "\<exists>c. Estimator_Z dbg n sketches S k l = Inr c
             \<and> chunk (n * l) c \<and> set c = top_entries (\<Union> (set ` f ` set S))"
proof -
  let ?cs = "map f S"
  have col: "collect k (n * l) sketches S [] [] = Inr (flat (n * l) ?cs, offsets ?cs 0)"
    using collect_correct [OF assms(1), of "[]" "[]"] by simp
  have "\<forall>c\<in>set ?cs. chunk (n * l) c" using assms(2) by simp
  from merge_rounds_correct [OF this, of dbg] assms(3,4)
  obtain c where c: "merge_rounds dbg (n * l) (flat (n * l) ?cs)
                       (offsets ?cs 0 @ [length (flat (n * l) ?cs)])
                       = Inr (c @ [(n * l, 0)], [0, length c + 1])"
    "chunk (n * l) c" "set c = top_entries (\<Union> (set ` set ?cs))"
    by auto
  have "2 \<le> length (offsets ?cs 0 @ [length (flat (n * l) ?cs)])"
    using assms(4) by (cases S) auto
  then have "Estimator_Z dbg n sketches S k l = Inr c"
    using col c(1) by (simp add: Estimator_Z_def Assert_def)
  then show ?thesis using c(2,3) by auto
qed

lemma sketch_entries_spec:
  assumes "bottom_k_sketch k nl X" and "1 \<le> k"
  shows "sketch_entries k nl X = Inr (spec_pairs k nl X)"
proof (cases "length X = k")
  case True
  with assms(2) have ne: "X \<noteq> []" by auto
  then have "last X = X ! (k - 1)" using True by (simp add: last_conv_nth)
  moreover have "take (length X - 1) X = butlast X" by (simp add: butlast_conv_take)
  ultimately show ?thesis using True ne
    by (simp add: sketch_entries_def spec_pairs_def Let_def)
next
  case False
  then show ?thesis by (simp add: sketch_entries_def spec_pairs_def Let_def)
qed

lemma spec_pairs_chunk:
  assumes "bottom_k_sketch k nl X"
  shows "chunk nl (spec_pairs k nl X)"
proof -
  from assms have s: "sorted_wrt (<) X" and b: "\<forall>r\<in>set X. r < nl"
    by (auto simp: bottom_k_sketch_def list_all_iff)
  have sb: "sorted_wrt (<) (butlast X)"
    using s by (simp add: butlast_conv_take sorted_wrt_take)
  have bb: "\<forall>r\<in>set (butlast X). r < nl"
    using b by (auto dest: in_set_butlastD)
  show ?thesis
    using s b sb bb
    by (auto simp: chunk_def spec_pairs_def Let_def comp_def list_all_iff)
qed

lemma spec_pairs_tau:
  assumes "bottom_k_sketch k nl X" and "z \<in> set (spec_pairs k nl X)"
  shows "fst z < snd z"
proof (cases "length X = k")
  case False
  with assms show ?thesis
    by (auto simp: spec_pairs_def bottom_k_sketch_def list_all_iff)
next
  case True
  from assms(2) True obtain r where r: "r \<in> set (butlast X)" "z = (r, X ! (k - 1))"
    by (auto simp: spec_pairs_def)
  then obtain i where i: "i < length X - 1" "r = X ! i"
    by (auto simp: in_set_conv_nth nth_butlast)
  from assms(1) have "sorted_wrt (<) X" by (simp add: bottom_k_sketch_def)
  from sorted_wrt_nth_less [OF this, of i "k - 1"] i True have "X ! i < X ! (k - 1)"
    by simp
  with r i show ?thesis by simp
qed

lemma top_entries_Max:
  assumes fin: "finite A"
  shows "(\<lambda>r. (r, Max (snd ` {z \<in> A. fst z = r}))) ` fst ` A = top_entries A"
proof (rule set_eqI, rule iffI)
  fix z assume "z \<in> (\<lambda>r. (r, Max (snd ` {z \<in> A. fst z = r}))) ` fst ` A"
  then obtain w where w: "w \<in> A" "z = (fst w, Max (snd ` {z \<in> A. fst z = fst w}))"
    by blast
  let ?T = "snd ` {z \<in> A. fst z = fst w}"
  have finT: "finite ?T" using fin by simp
  have "snd w \<in> ?T" using w(1) by (intro imageI) simp
  then have "?T \<noteq> {}" by blast
  from Max_in [OF finT this] have "snd z \<in> ?T" using w(2) by simp
  then obtain u where u0: "snd z = snd u" "u \<in> {z \<in> A. fst z = fst w}"
    by (rule imageE)
  then have u: "u \<in> A" "fst u = fst w" "snd u = snd z"
    by (simp_all only: mem_Collect_eq)
  then have "u = z" using w(2) by (simp add: prod_eq_iff)
  with u(1) have "z \<in> A" by simp
  moreover have "\<forall>u\<in>A. fst u = fst z \<longrightarrow> snd u \<le> snd z"
  proof (intro ballI impI)
    fix u assume "u \<in> A" "fst u = fst z"
    then have "snd u \<in> ?T" using w(2) by (intro imageI) simp
    then show "snd u \<le> snd z" using finT w(2) by (simp add: Max_ge)
  qed
  ultimately show "z \<in> top_entries A" by (simp add: top_entries_def)
next
  fix z assume "z \<in> top_entries A"
  then have zin: "z \<in> A" and zmax: "\<forall>u\<in>A. fst u = fst z \<longrightarrow> snd u \<le> snd z"
    by (auto simp: top_entries_def)
  let ?T = "snd ` {u \<in> A. fst u = fst z}"
  have finT: "finite ?T" using fin by simp
  have "snd z \<in> ?T" using zin by (intro imageI) simp
  moreover have "t \<le> snd z" if "t \<in> ?T" for t
  proof -
    from that obtain u where "t = snd u" "u \<in> {u \<in> A. fst u = fst z}" by (rule imageE)
    with zmax show ?thesis by simp
  qed
  ultimately have "Max ?T = snd z" using finT by (intro Max_eqI)
  then have "z = (fst z, Max ?T)" by simp
  then show "z \<in> (\<lambda>r. (r, Max (snd ` {z \<in> A. fst z = r}))) ` fst ` A"
    using zin by blast
qed

lemma set_spec_merge: "set (spec_merge Zs) = top_entries (\<Union> (set ` set Zs))"
proof -
  define A where "A = \<Union> (set ` set Zs)"
  have fin: "finite A" by (simp add: A_def)
  have A: "set (concat Zs) = A" by (simp add: A_def)
  have mx: "set (map snd (filter (\<lambda>z. fst z = r) (concat Zs))) = snd ` {z \<in> A. fst z = r}" for r
    unfolding A [symmetric] by auto
  have "set (spec_merge Zs) = (\<lambda>r. (r, Max (snd ` {z \<in> A. fst z = r}))) ` fst ` A"
    unfolding spec_merge_def Let_def mx by (simp only: set_map set_sort set_remdups A)
  also have "\<dots> = top_entries A" by (rule top_entries_Max [OF fin])
  finally show ?thesis by (simp only: A_def)
qed

lemma sorted_spec_merge: "sorted_wrt (<) (map fst (spec_merge Zs))"
proof -
  have "map fst (spec_merge Zs) = sort (remdups (map fst (concat Zs)))"
    by (simp add: spec_merge_def Let_def comp_def)
  then show ?thesis by (simp add: strict_sorted_iff)
qed

lemma sorted_fst_unique:
  assumes "sorted_wrt (<) (map fst (a :: zentry list))" and "sorted_wrt (<) (map fst b)"
    and "set a = set b"
  shows "a = b"
proof (rule map_sorted_distinct_set_unique [of fst])
  show "inj_on fst (set a \<union> set b)"
    by (simp add: assms(3) sorted_fst_inj [OF assms(2)])
  show "sorted (map fst a)" "distinct (map fst a)" using assms(1) by (simp_all add: strict_sorted_iff)
  show "sorted (map fst b)" "distinct (map fst b)" using assms(2) by (simp_all add: strict_sorted_iff)
  show "set a = set b" by (rule assms(3))
qed

lemma accumulate_exact:
  "accumulate exact_ops n Z = real n * (\<Sum>z\<leftarrow>Z. 1 / real (snd z))"
proof -
  have "foldl (\<lambda>estimate z. estimate + 1 / real (snd z)) a Z
          = a + (\<Sum>z\<leftarrow>Z. 1 / real (snd z))" for a
    by (induction Z arbitrary: a) simp_all
  then show ?thesis
    by (simp add: accumulate_def exact_ops_def)
qed

text \<open>
  Claim C2 (as the code has it).  For every non-empty seed set whose sketches are sorted
  bottom-\<open>k\<close> sketches (\<open>k \<ge> 1\<close>, ranks below \<open>n * l\<close>), with assertions compiled out
  or a single seed, the rounds of pairwise merges over the two buffers compute the
  reference list: the list sorted by rank in which every rank carries its largest
  threshold.  The estimator returns \<open>n\<close> times the sum of \<open>1 / \<tau>\<close> over that list, the
  sum and the product taken in the arithmetic of the doubles, the terms added in the order
  of the list.
\<close>

theorem Estimator_refines_spec_merge:
  assumes "S \<noteq> []"
    and "\<forall>s\<in>set S. s < length sketches \<and> bottom_k_sketch k (n * l) (sketches ! s)"
    and "1 \<le> k"
    and "dbg \<longrightarrow> length S = 1"
  shows "Estimator_Z dbg n sketches S k l = Inr (spec_list n sketches S k l)
       \<and> Estimator ops dbg n sketches S k l = Inr (spec_estimate ops n sketches S k l)"
proof -
  define f where "f = (\<lambda>s. spec_pairs k (n * l) (sketches ! s))"
  have e: "\<forall>i\<in>set S. i < length sketches
             \<and> sketch_entries k (n * l) (sketches ! i) = Inr (f i)"
    using assms(2,3) by (simp add: f_def sketch_entries_spec)
  have ch: "\<forall>i\<in>set S. chunk (n * l) (f i)"
    using assms(2) by (simp add: f_def spec_pairs_chunk)
  from Estimator_Z_correct [OF e ch _ assms(1), of dbg] assms(4)
  obtain c where c: "Estimator_Z dbg n sketches S k l = Inr c" "chunk (n * l) c"
    "set c = top_entries (\<Union> (set ` f ` set S))"
    by auto
  have "set c = set (spec_merge (map f S))"
    by (simp add: c(3) set_spec_merge)
  moreover have "sorted_wrt (<) (map fst c)" using c(2) by (simp add: chunk_def)
  ultimately have "c = spec_merge (map f S)"
    by (intro sorted_fst_unique sorted_spec_merge)
  then have eq: "c = spec_list n sketches S k l"
    by (simp add: spec_list_def f_def)
  have "accumulate ops n c = spec_estimate ops n sketches S k l"
    by (simp add: accumulate_def spec_estimate_def eq)
  with c(1) eq show ?thesis
    by (simp add: Estimator_def)
qed

text \<open>
  Three vertices with the sketches \<open>[0, 1, 3]\<close>, \<open>[2, 4, 5]\<close> and \<open>[1]\<close>, all of them
  seeds, \<open>k = 3\<close> and \<open>l = 2\<close>: the merged list is \<open>[(0, 3), (1, 6), (2, 5), (4, 5)]\<close>, and
  the estimate is \<open>((((0 + 1/3) + 1/6) + 1/5) + 1/5) * 3\<close> in the arithmetic of the
  doubles, which is \<open>27 / 10\<close> in exact arithmetic.
\<close>

theorem Estimator_refines_spec_merge_witness:
  "Estimator_Z False 3 [[0, 1, 3], [2, 4, 5], [1]] [0, 1, 2] 3 2
     = Inr [(0, 3), (1, 6), (2, 5), (4, 5)]
   \<and> (\<forall>ops. Estimator ops False 3 [[0, 1, 3], [2, 4, 5], [1]] [0, 1, 2] 3 2
        = Inr (d_mul ops
                 (d_add ops
                    (d_add ops
                       (d_add ops
                          (d_add ops (d_of_nat ops 0) (d_div ops (d_one ops) (d_of_nat ops 3)))
                          (d_div ops (d_one ops) (d_of_nat ops 6)))
                       (d_div ops (d_one ops) (d_of_nat ops 5)))
                    (d_div ops (d_one ops) (d_of_nat ops 5)))
                 (d_of_nat ops 3)))
   \<and> Estimator exact_ops False 3 [[0, 1, 3], [2, 4, 5], [1]] [0, 1, 2] 3 2 = Inr (27 / 10)"
proof -
  let ?sk = "[[0, 1, 3], [2, 4, 5], [1 :: nat]]"
  have 1: "[0, 1, 2 :: nat] \<noteq> []" by simp
  have 2: "\<forall>s\<in>set [0, 1, 2]. s < length ?sk \<and> bottom_k_sketch 3 (3 * 2) (?sk ! s)"
    by (simp add: bottom_k_sketch_def)
  have 3: "1 \<le> (3 :: nat)" by simp
  have 4: "False \<longrightarrow> length [0, 1, 2 :: nat] = 1" by simp
  have sp: "map (\<lambda>s. spec_pairs 3 (3 * 2) (?sk ! s)) [0, 1, 2]
              = [[(0, 3), (1, 3)], [(2, 5), (4, 5)], [(1, 6)]]"
    by (simp add: spec_pairs_def)
  have sm: "spec_merge [[(0, 3), (1, 3)], [(2, 5), (4, 5)], [(1, 6)]]
              = [(0, 3), (1, 6), (2, 5), (4, 5)]"
    by code_simp
  have sl: "spec_list 3 ?sk [0, 1, 2] 3 2 = [(0, 3), (1, 6), (2, 5), (4, 5)]"
    unfolding spec_list_def sp sm ..
  note r = Estimator_refines_spec_merge [OF 1 2 3 4]
  have "Estimator_Z False 3 ?sk [0, 1, 2] 3 2 = Inr [(0, 3), (1, 6), (2, 5), (4, 5)]"
    using r [THEN conjunct1] by (simp only: sl)
  moreover have "Estimator ops False 3 ?sk [0, 1, 2] 3 2
        = Inr (d_mul ops
                 (d_add ops
                    (d_add ops
                       (d_add ops
                          (d_add ops (d_of_nat ops 0) (d_div ops (d_one ops) (d_of_nat ops 3)))
                          (d_div ops (d_one ops) (d_of_nat ops 6)))
                       (d_div ops (d_one ops) (d_of_nat ops 5)))
                    (d_div ops (d_one ops) (d_of_nat ops 5)))
                 (d_of_nat ops 3))" for ops :: "'d double_ops"
    using r [THEN conjunct2, of ops] unfolding spec_estimate_def sl by simp
  moreover have "Estimator exact_ops False 3 ?sk [0, 1, 2] 3 2 = Inr (27 / 10)"
    using r [THEN conjunct2, of exact_ops] unfolding spec_estimate_def sl
    by (simp add: exact_ops_def)
  ultimately show ?thesis by blast
qed

text \<open>
  For the empty seed set the reference list is empty and its estimate is the product of
  0 and \<open>n\<close>, and the estimator does not return.
\<close>

theorem Estimator_refines_spec_merge_counterexample:
  "spec_list 3 [[0, 3], [0, 1], [2]] [] 2 2 = []
   \<and> (\<forall>ops. spec_estimate ops 3 [[0, 3], [0, 1], [2]] [] 2 2
              = d_mul ops (d_of_nat ops 0) (d_of_nat ops 3))
   \<and> (\<forall>ops. Estimator ops False 3 [[0, 3], [0, 1], [2]] [] 2 2 = Inl Out_of_bounds)
   \<and> (\<forall>ops. Estimator ops True 3 [[0, 3], [0, 1], [2]] [] 2 2 = Inl Assertion_failed)"
  by (simp add: spec_estimate_def spec_list_def spec_merge_def Estimator_def Estimator_Z_empty)
section \<open>The builder with incoming arcs\<close>

lemma endpoint_count_Nil [simp]: "endpoint_count [] u = 0"
  by (simp add: endpoint_count_def)

lemma endpoint_count_Cons:
  "endpoint_count ((f, t) # es) u
     = (if f = u then 1 else 0) + (if t = u then 1 else 0) + endpoint_count es u"
  by (simp add: endpoint_count_def)

lemma endpoint_count_append:
  "endpoint_count (xs @ ys) u = endpoint_count xs u + endpoint_count ys u"
  by (simp add: endpoint_count_def)

lemma block_start_Suc: "block_start es (Suc u) = block_start es u + endpoint_count es u"
  by (simp add: block_start_def)

lemma block_start_0 [simp]: "block_start es 0 = 0"
  by (simp add: block_start_def)

lemma block_start_mono: "u \<le> v \<Longrightarrow> block_start es u \<le> block_start es v"
  unfolding block_start_def by (intro sum_mono2) auto

lemma sum_endpoint_count:
  assumes "list_all (\<lambda>e. fst e < n \<and> snd e < n) es"
  shows "block_start es n = 2 * length es"
  using assms
proof (induction es)
  case Nil
  show ?case by (simp add: block_start_def)
next
  case (Cons e es)
  obtain f t where e: "e = (f, t)" by (cases e)
  with Cons.prems have f: "f < n" and t: "t < n" by auto
  have "(\<Sum>i<n. (if f = i then 1 else 0 :: nat)) = 1"
    using f by (simp add: sum.delta)
  moreover have "(\<Sum>i<n. (if t = i then 1 else 0 :: nat)) = 1"
    using t by (simp add: sum.delta)
  ultimately have "block_start (e # es) n = 2 + block_start es n"
    unfolding block_start_def e endpoint_count_Cons by (simp add: sum.distrib)
  with Cons show ?case by simp
qed

lemma slot_less_next:
  "j < endpoint_count es u \<Longrightarrow> block_start es u + j < block_start es (Suc u)"
  by (simp add: block_start_Suc)

lemma slot_inj:
  assumes "block_start es u + j = block_start es v + i"
    and "j < endpoint_count es u" and "i < endpoint_count es v"
  shows "u = v \<and> j = i"
proof -
  have False if "u < v"
  proof -
    from that have "block_start es (Suc u) \<le> block_start es v"
      by (intro block_start_mono) simp
    with slot_less_next [OF assms(2)] assms(1) show False by simp
  qed
  moreover have False if "v < u"
  proof -
    from that have "block_start es (Suc v) \<le> block_start es u"
      by (intro block_start_mono) simp
    with slot_less_next [OF assms(3)] assms(1) show False by simp
  qed
  ultimately have "u = v" by (meson nat_neq_iff)
  with assms(1) show ?thesis by simp
qed

lemma slot_bound:
  assumes "u < n" and "j < endpoint_count es u"
  shows "block_start es u + j < block_start es n"
proof -
  from assms(1) have "block_start es (Suc u) \<le> block_start es n"
    by (intro block_start_mono) simp
  with slot_less_next [OF assms(2)] show ?thesis by simp
qed

lemma arc_id_small: "x < 2 ^ 32 \<Longrightarrow> arc_id x = x"
  by (simp add: arc_id_def)

lemma arc_id_numeral: "x < 4294967296 \<Longrightarrow> arc_id x = x"
  by (simp add: arc_id_def)

lemma endpoint_count_le: "endpoint_count es u \<le> 2 * length es"
proof -
  have "length (filter (\<lambda>e. fst e = u) es) \<le> length es"
    and "length (filter (\<lambda>e. snd e = u) es) \<le> length es"
    by (rule length_filter_le)+
  then show ?thesis unfolding endpoint_count_def by linarith
qed

lemma count_degrees_correct:
  assumes "arcs_in_range n dir es" and "length vs = n + 1"
    and "\<forall>u\<le>n. vs ! u + endpoint_count es u < 2 ^ 32"
  shows "\<exists>vs'. count_degrees dbg n dir True es vs = Inr vs' \<and> length vs' = n + 1
            \<and> (\<forall>u\<le>n. vs' ! u = vs ! u + endpoint_count es u)"
  using assms
proof (induction es arbitrary: vs)
  case Nil
  then show ?case by simp
next
  case (Cons e es)
  obtain f t where e: "e = (f, t)" by (cases e)
  from Cons.prems(1) e have f: "f < n" and t: "t < n" and o: "dir \<or> f < t"
    and rest: "arcs_in_range n dir es"
    by (auto simp: arcs_in_range_def)
  define vs1 where "vs1 = vs[f := vs ! f + 1]"
  define vs2 where "vs2 = vs1[t := vs1 ! t + 1]"
  have l2: "length vs2 = n + 1" by (simp add: vs2_def vs1_def Cons.prems(2))
  have nth2: "vs2 ! u = vs ! u + (if f = u then 1 else 0) + (if t = u then 1 else 0)"
    if "u \<le> n" for u
    using that f t Cons.prems(2) by (auto simp: vs2_def vs1_def nth_list_update)
  have bnd: "vs ! u + endpoint_count (e # es) u < 2 ^ 32" if "u \<le> n" for u
    using Cons.prems(3) that by simp
  have "vs ! f + 1 < 2 ^ 32"
    using bnd [of f] f by (simp add: e endpoint_count_Cons)
  then have w1: "arc_id (vs ! f + 1) = vs ! f + 1" by (rule arc_id_small)
  have "vs1 ! t + 1 < 2 ^ 32"
    using bnd [of t] f t Cons.prems(2)
    by (auto simp: e endpoint_count_Cons vs1_def nth_list_update)
  then have w2: "arc_id (vs1 ! t + 1) = vs1 ! t + 1" by (rule arc_id_small)
  have b2: "\<forall>u\<le>n. vs2 ! u + endpoint_count es u < 2 ^ 32"
  proof (intro allI impI)
    fix u assume u: "u \<le> n"
    have "vs2 ! u + endpoint_count es u = vs ! u + endpoint_count (e # es) u"
      using nth2 [OF u] by (simp add: e endpoint_count_Cons)
    with bnd [OF u] show "vs2 ! u + endpoint_count es u < 2 ^ 32" by simp
  qed
  from Cons.IH [OF rest l2 b2] obtain vs' where
    vs': "count_degrees dbg n dir True es vs2 = Inr vs'" "length vs' = n + 1"
    "\<forall>u\<le>n. vs' ! u = vs2 ! u + endpoint_count es u"
    by blast
  have step: "count_degrees dbg n dir True (e # es) vs = count_degrees dbg n dir True es vs2"
    using f t o Cons.prems(2) w1 w2 [unfolded vs1_def]
    by (simp add: e Assert_def elem_at_def put_def vs1_def vs2_def)
  have "\<forall>u\<le>n. vs' ! u = vs ! u + endpoint_count (e # es) u"
    using vs'(3) nth2 by (simp add: e endpoint_count_Cons)
  with step vs'(1,2) show ?case by simp
qed

lemma rewire_correct:
  assumes "length vs = n + 1" and "length ff = n + 1" and "u \<le> n"
    and "cur + (\<Sum>i = u..<n. vs ! i) < 2 ^ 32"
  shows "\<exists>vs' ff'. rewire n u cur vs ff = Inr (cur + (\<Sum>i = u..<n. vs ! i), vs', ff')
            \<and> length vs' = n + 1 \<and> length ff' = n + 1
            \<and> (\<forall>j\<le>n. vs' ! j = (if u \<le> j \<and> j < n then cur + (\<Sum>i = u..<j. vs ! i) else vs ! j))
            \<and> (\<forall>j\<le>n. ff' ! j = (if u \<le> j \<and> j < n then cur + (\<Sum>i = u..<j. vs ! i) else ff ! j))"
  using assms
proof (induction "n - u" arbitrary: u cur vs ff)
  case 0
  then have "u = n" by simp
  then show ?case using "0.prems"(1,2) by (subst rewire.simps) simp
next
  case (Suc k)
  then have u: "u < n" by simp
  define vs1 where "vs1 = vs[u := cur]"
  define ff1 where "ff1 = ff[u := cur]"
  have k: "k = n - (u + 1)" using Suc.hyps(2) by simp
  have l: "length vs1 = n + 1" "length ff1 = n + 1" "u + 1 \<le> n"
    using Suc.prems u by (simp_all add: vs1_def ff1_def)
  have same: "(\<Sum>i = u + 1..<j. vs1 ! i) = (\<Sum>i = u + 1..<j. vs ! i)" for j
    by (intro sum.cong) (auto simp: vs1_def)
  have split: "vs ! u + (\<Sum>i = u + 1..<j. vs ! i) = (\<Sum>i = u..<j. vs ! i)" if "u < j" for j
    using that by (simp add: sum.atLeast_Suc_lessThan)
  have b: "cur + vs ! u + (\<Sum>i = u + 1..<n. vs1 ! i) < 2 ^ 32"
    using Suc.prems(4) same [of n] split [OF u] by (simp add: add.assoc)
  then have "cur + vs ! u < 2 ^ 32" by simp
  then have w: "arc_id (cur + vs ! u) = cur + vs ! u" by (rule arc_id_small)
  from Suc.hyps(1) [OF k l b] obtain vs' ff' where
    r: "rewire n (u + 1) (cur + vs ! u) vs1 ff1
          = Inr (cur + vs ! u + (\<Sum>i = u + 1..<n. vs1 ! i), vs', ff')"
    "length vs' = n + 1" "length ff' = n + 1"
    "\<forall>j\<le>n. vs' ! j = (if u + 1 \<le> j \<and> j < n then cur + vs ! u + (\<Sum>i = u + 1..<j. vs1 ! i) else vs1 ! j)"
    "\<forall>j\<le>n. ff' ! j = (if u + 1 \<le> j \<and> j < n then cur + vs ! u + (\<Sum>i = u + 1..<j. vs1 ! i) else ff1 ! j)"
    by blast
  have step: "rewire n u cur vs ff = rewire n (u + 1) (cur + vs ! u) vs1 ff1"
    using u Suc.prems(1,2,3) w
    by (subst rewire.simps) (simp add: elem_at_def put_def Let_def vs1_def ff1_def)
  have 1: "rewire n u cur vs ff = Inr (cur + (\<Sum>i = u..<n. vs ! i), vs', ff')"
    using step r(1) same split [OF u] by (simp add: add.assoc)
  have 2: "vs' ! j = (if u \<le> j \<and> j < n then cur + (\<Sum>i = u..<j. vs ! i) else vs ! j)"
    if "j \<le> n" for j
  proof (cases "j = u")
    case True
    with r(4) that Suc.prems u show ?thesis by (simp add: vs1_def)
  next
    case False
    show ?thesis
    proof (cases "u < j \<and> j < n")
      case True
      with r(4) that same [of j] split [of j] show ?thesis by (simp add: add.assoc)
    next
      case F: False
      with False r(4) that show ?thesis by (auto simp: vs1_def)
    qed
  qed
  have 3: "ff' ! j = (if u \<le> j \<and> j < n then cur + (\<Sum>i = u..<j. vs ! i) else ff ! j)"
    if "j \<le> n" for j
  proof (cases "j = u")
    case True
    with r(5) that Suc.prems u show ?thesis by (simp add: ff1_def)
  next
    case False
    show ?thesis
    proof (cases "u < j \<and> j < n")
      case True
      with r(5) that same [of j] split [of j] show ?thesis by (simp add: add.assoc)
    next
      case F: False
      with False r(5) that show ?thesis by (auto simp: ff1_def)
    qed
  qed
  from 1 2 3 r(2,3) show ?case by blast
qed

lemma mask30: "(0x3FFFFFFF :: 32 word) = mask 30"
  by (simp add: mask_eq_exp_minus_1)

lemma flags30: "(0xC0000000 :: 32 word) = NOT (mask 30)"
  by (simp add: mask_eq_exp_minus_1)

lemma bit30: "(0x40000000 :: 32 word) = 2 ^ 30"
  by simp

lemma bit31: "(0x80000000 :: 32 word) = 2 ^ 31"
  by simp

lemma bit_OtherVertexId: "bit (OtherVertexId a) i \<longleftrightarrow> bit a i \<and> i < 30"
  unfolding OtherVertexId_def mask30 by (auto simp: bit_simps)

lemma bit_SetOtherVertexId:
  "bit (SetOtherVertexId v a) i \<longleftrightarrow> (if i < 30 then bit v i else bit a i)"
  unfolding SetOtherVertexId_def mask30 flags30 
  by (auto simp: bit_simps dest: bit_imp_le_length)

lemma bit_or_exp: "n < 32 \<Longrightarrow> bit ((a :: 32 word) OR 2 ^ n) i \<longleftrightarrow> bit a i \<or> i = n"
  by (auto simp: bit_simps)

lemma bit_SetForwardFlag: "bit (SetForwardFlag a) i \<longleftrightarrow> bit a i \<or> i = 30"
  unfolding SetForwardFlag_def using bit_or_exp [of 30 a i] by simp

lemma bit_SetBackwardFlag: "bit (SetBackwardFlag a) i \<longleftrightarrow> bit a i \<or> i = 31"
  unfolding SetBackwardFlag_def using bit_or_exp [of 31 a i] by simp

lemmas arc_bits = Forward_bit Backward_bit bit_OtherVertexId bit_SetOtherVertexId
  bit_SetForwardFlag bit_SetBackwardFlag

lemma OtherVertexId_of_nat:
  assumes "t < 2 ^ 30" and "\<forall>i<30. bit a i = bit (of_nat t :: 32 word) i"
  shows "unat (OtherVertexId a) = t"
proof -
  have "OtherVertexId a = of_nat t"
  proof (rule bit_word_eqI)
    fix i assume "i < LENGTH(32)"
    have "\<not> bit (of_nat t :: 32 word) i" if "30 \<le> i"
    proof
      assume "bit (of_nat t :: 32 word) i"
      then have "bit t i" by (simp add: bit_simps)
      moreover have "t < 2 ^ i"
        using assms(1) that by (meson less_le_trans one_le_numeral power_increasing)
      ultimately show False by (simp add: bit_iff_odd)
    qed
    then show "bit (OtherVertexId a) i = bit (of_nat t :: 32 word) i"
      using assms(2) by (cases "i < 30") (auto simp: bit_OtherVertexId)
  qed
  moreover have "unat (of_nat t :: 32 word) = t"
    using assms(1) by (simp add: unat_of_nat)
  ultimately show ?thesis by simp
qed

lemma add_outgoing_0:
  assumes "t < 2 ^ 30"
  shows "Forward (add_outgoing dir True t 0)"
    and "Backward (add_outgoing dir True t 0) \<longleftrightarrow> \<not> dir"
    and "unat (OtherVertexId (add_outgoing dir True t 0)) = t"
proof -
  show "Forward (add_outgoing dir True t 0)"
    by (cases dir) (simp_all add: add_outgoing_def Let_def arc_bits)
  show "Backward (add_outgoing dir True t 0) \<longleftrightarrow> \<not> dir"
    by (cases dir) (simp_all add: add_outgoing_def Let_def arc_bits)
  show "unat (OtherVertexId (add_outgoing dir True t 0)) = t"
    by (rule OtherVertexId_of_nat [OF assms])
      (cases dir, simp_all add: add_outgoing_def Let_def arc_bits)
qed

lemma add_incoming_0:
  assumes "f < 2 ^ 30"
  shows "Backward (add_incoming dir True f 0)"
    and "Forward (add_incoming dir True f 0) \<longleftrightarrow> \<not> dir"
    and "unat (OtherVertexId (add_incoming dir True f 0)) = f"
proof -
  show "Backward (add_incoming dir True f 0)"
    by (cases dir) (simp_all add: add_incoming_def Let_def arc_bits)
  show "Forward (add_incoming dir True f 0) \<longleftrightarrow> \<not> dir"
    by (cases dir) (simp_all add: add_incoming_def Let_def arc_bits)
  show "unat (OtherVertexId (add_incoming dir True f 0)) = f"
    by (rule OtherVertexId_of_nat [OF assms])
      (cases dir, simp_all add: add_incoming_def Let_def arc_bits)
qed

lemma add_arcs_step:
  assumes inv: "add_inv n es P arcs ff"
    and es: "es = P @ (f, t) # R"
    and rng: "arcs_in_range n dir es"
    and n30: "n \<le> 2 ^ 30"
    and m32: "2 * length es < 2 ^ 32"
  shows "\<exists>arcs' ff'. add_arcs dbg dir True ((f, t) # R) arcs ff = add_arcs dbg dir True R arcs' ff'
            \<and> add_inv n es (P @ [(f, t)]) arcs' ff'"
proof -
  let ?bs = "block_start es" and ?ec = "endpoint_count"
  from rng es have f: "f < n" and t: "t < n"
    by (auto simp: arcs_in_range_def)
  from rng have tot: "?bs n = 2 * length es"
    by (intro sum_endpoint_count) (auto simp: arcs_in_range_def list_all_iff)
  from inv have la: "length arcs = 2 * length es + 1" and lf: "length ff = n + 1"
    and ffn: "ff ! n = ?bs n"
    and ffu: "\<And>u. u < n \<Longrightarrow> ff ! u = ?bs u + ?ec P u"
    and slots: "\<And>u j. u < n \<Longrightarrow> j < ?ec es u \<Longrightarrow>
        (if j < ?ec P u then slot_paired n es P arcs u (arcs ! (?bs u + j))
         else arcs ! (?bs u + j) = 0)"
    by (auto simp: add_inv_def)
  define cf where "cf = ?ec P f"
  define jt where "jt = ?ec P t + (if t = f then 1 else 0)"
  define p where "p = ?bs f + cf"
  define q where "q = ?bs t + jt"
  define w1 where "w1 = add_outgoing dir True t 0"
  define w2 where "w2 = add_incoming dir True f 0"
  define P1 where "P1 = P @ [(f, t)]"
  have ecs: "?ec es u = ?ec P u + (if f = u then 1 else 0) + (if t = u then 1 else 0) + ?ec R u" for u
    by (simp add: es endpoint_count_append endpoint_count_Cons)
  have ec1: "?ec P1 u = ?ec P u + (if f = u then 1 else 0) + (if t = u then 1 else 0)" for u
    by (simp add: P1_def endpoint_count_append endpoint_count_Cons)
  have cf_lt: "cf < ?ec es f" using ecs [of f] by (simp add: cf_def)
  have jt_lt: "jt < ?ec es t" using ecs [of t] by (auto simp: jt_def)
  have pq: "p \<noteq> q"
  proof
    assume "p = q"
    with slot_inj [of es f cf t jt] cf_lt jt_lt have "f = t \<and> cf = jt"
      by (simp add: p_def q_def)
    then show False by (auto simp: cf_def jt_def)
  qed
  have p_lt: "p < 2 * length es" using slot_bound [OF f cf_lt] tot by (simp add: p_def)
  have q_lt: "q < 2 * length es" using slot_bound [OF t jt_lt] tot by (simp add: q_def)
  have next_ge: "?bs (Suc u) \<le> ff ! Suc u" if "u < n" for u
  proof (cases "Suc u = n")
    case True
    then show ?thesis using ffn by simp
  next
    case False
    with that have "Suc u < n" by simp
    from ffu [OF this] show ?thesis by simp
  qed
  define ff1 where "ff1 = ff[f := p + 1]"
  define arcs1 where "arcs1 = arcs[p := w1]"
  define arcs2 where "arcs2 = arcs1[q := w2]"
  define ff2 where "ff2 = ff1[t := q + 1]"
  have ffp: "ff ! f = p" using ffu [OF f] by (simp add: p_def cf_def)
  have ff1q: "ff1 ! t = q"
    using ffu [OF t] f t lf by (auto simp: ff1_def q_def jt_def p_def cf_def nth_list_update)
  have a1: "ff ! f < ff ! (f + 1)"
    using slot_less_next [OF cf_lt] next_ge [OF f] ffp by (simp add: p_def)
  have ff1_next: "?bs (Suc t) \<le> ff1 ! Suc t"
  proof (cases "Suc t = f")
    case True
    then have "?bs (Suc t) \<le> p" by (simp add: p_def)
    then show ?thesis using True lf f by (simp add: ff1_def)
  next
    case False
    then show ?thesis using next_ge [OF t] by (simp add: ff1_def)
  qed
  have a2: "ff1 ! t < ff1 ! (t + 1)"
    using slot_less_next [OF jt_lt] ff1_next ff1q by (simp add: q_def)
  have zp: "arcs ! p = 0"
    using slots [OF f cf_lt] by (simp add: p_def cf_def)
  have zq: "arcs ! q = 0"
    using slots [OF t jt_lt] by (simp add: q_def jt_def)
  have e1: "Assert dbg (ff ! f < ff ! (f + 1)) = Inr ()"
    using a1 by (simp add: Assert_def)
  have e2: "elem_at ff f = Inr p"
    using ffp f lf by (simp add: elem_at_def)
  have e3: "elem_at arcs p = Inr 0"
    using zp p_lt la by (simp add: elem_at_def)
  have e4: "put arcs p (add_outgoing dir True t 0) = Inr arcs1"
    using p_lt la by (simp add: put_def arcs1_def w1_def)
  have "p + 1 < 2 ^ 32" using p_lt m32 by simp
  then have wp: "arc_id (p + 1) = p + 1" by (rule arc_id_small)
  have "q + 1 < 2 ^ 32" using q_lt m32 by simp
  then have wq: "arc_id (q + 1) = q + 1" by (rule arc_id_small)
  have e5: "put ff f (arc_id (p + 1)) = Inr ff1"
    using f lf wp by (simp add: put_def ff1_def)
  have e6: "Assert dbg (ff1 ! t < ff1 ! (t + 1)) = Inr ()"
    using a2 by (simp add: Assert_def)
  have e7: "elem_at ff1 t = Inr q"
    using ff1q t lf by (simp add: elem_at_def ff1_def)
  have e8: "elem_at arcs1 q = Inr 0"
    using zq q_lt la pq by (simp add: elem_at_def arcs1_def)
  have e9: "put arcs1 q (add_incoming dir True f 0) = Inr arcs2"
    using q_lt la by (simp add: put_def arcs2_def arcs1_def w2_def)
  have e10: "put ff1 t (arc_id (q + 1)) = Inr ff2"
    using t lf wq by (simp add: put_def ff2_def ff1_def)
  have step: "add_arcs dbg dir True ((f, t) # R) arcs ff = add_arcs dbg dir True R arcs2 ff2"
    by (simp only: add_arcs.simps e1 e2 e3 e4 e5 e6 e7 e8 e9 e10 sum.case simp_thms if_True)
  have t30: "t < 2 ^ 30" and f30: "f < 2 ^ 30" using f t n30 by simp_all
  have w1p: "Forward w1" "Backward w1 \<longleftrightarrow> \<not> dir" "unat (OtherVertexId w1) = t"
    unfolding w1_def by (rule add_outgoing_0 [OF t30])+
  have w2p: "Backward w2" "Forward w2 \<longleftrightarrow> \<not> dir" "unat (OtherVertexId w2) = f"
    unfolding w2_def by (rule add_incoming_0 [OF f30])+
  have nth2: "arcs2 ! (?bs u + j)
                = (if u = t \<and> j = jt then w2 else if u = f \<and> j = cf then w1
                   else arcs ! (?bs u + j))"
    if "u < n" "j < ?ec es u" for u j
  proof -
    have xq: "?bs u + j = q \<longleftrightarrow> u = t \<and> j = jt"
      using slot_inj [of es u j t jt] that(2) jt_lt by (auto simp: q_def)
    have xp: "?bs u + j = p \<longleftrightarrow> u = f \<and> j = cf"
      using slot_inj [of es u j f cf] that(2) cf_lt by (auto simp: p_def)
    have "?bs u + j < length arcs"
      using slot_bound [OF that] tot la by simp
    then have "arcs2 ! (?bs u + j)
                 = (if ?bs u + j = q then w2 else if ?bs u + j = p then w1
                    else arcs ! (?bs u + j))"
      by (simp add: arcs2_def arcs1_def nth_list_update)
    then show ?thesis by (simp only: xq xp)
  qed
  have at_p: "arcs2 ! (?bs f + cf) = w1"
    using nth2 [OF f cf_lt] pq by (auto simp: p_def q_def)
  have at_q: "arcs2 ! (?bs t + jt) = w2"
    using nth2 [OF t jt_lt] by simp
  have cf1: "cf < ?ec P1 f" by (simp add: ec1 cf_def)
  have jt1: "jt < ?ec P1 t" by (auto simp: ec1 jt_def)
  have new1: "slot_paired n es P1 arcs2 f w1"
    unfolding slot_paired_def
  proof (intro conjI impI)
    show "Valid w1" using w1p(1) by (simp add: Valid_iff)
    show "unat (OtherVertexId w1) < n" using w1p(3) t by simp
    assume "Backward w1"
    then have "Forward w2" using w1p(2) w2p(2) by simp
    with at_q w2p(3) t jt1
    show "\<exists>v<n. \<exists>i<?ec P1 v. Forward (arcs2 ! (?bs v + i))
            \<and> unat (OtherVertexId (arcs2 ! (?bs v + i))) = f"
      by (intro exI [of _ t] conjI exI [of _ jt]) simp_all
  qed
  have new2: "slot_paired n es P1 arcs2 t w2"
    unfolding slot_paired_def
  proof (intro conjI impI)
    show "Valid w2" using w2p(1) by (simp add: Valid_iff)
    show "unat (OtherVertexId w2) < n" using w2p(3) f by simp
    from at_p w1p(1,3) f cf1
    show "\<exists>v<n. \<exists>i<?ec P1 v. Forward (arcs2 ! (?bs v + i))
            \<and> unat (OtherVertexId (arcs2 ! (?bs v + i))) = t"
      by (intro exI [of _ f] conjI exI [of _ cf]) simp_all
  qed
  have old_nth: "arcs2 ! (?bs v + i) = arcs ! (?bs v + i)" if "v < n" "i < ?ec P v" for v i
  proof -
    have "i < ?ec es v" using that(2) ecs [of v] by simp
    from nth2 [OF that(1) this] that(2) show ?thesis
      by (auto simp: jt_def cf_def)
  qed
  have old: "slot_paired n es P1 arcs2 u a" if "slot_paired n es P arcs u a" for u a
    unfolding slot_paired_def
  proof (intro conjI impI)
    from that show "Valid a" "unat (OtherVertexId a) < n"
      by (simp_all add: slot_paired_def)
    assume "Backward a"
    with that obtain v i where vi: "v < n" "i < ?ec P v" "Forward (arcs ! (?bs v + i))"
      "unat (OtherVertexId (arcs ! (?bs v + i))) = u"
      by (auto simp: slot_paired_def)
    have "i < ?ec P1 v" using vi(2) by (simp add: ec1)
    with vi old_nth [OF vi(1,2)]
    show "\<exists>v<n. \<exists>i<?ec P1 v. Forward (arcs2 ! (?bs v + i))
            \<and> unat (OtherVertexId (arcs2 ! (?bs v + i))) = u"
      by (intro exI [of _ v] conjI exI [of _ i]) simp_all
  qed
  have ff2u: "ff2 ! u = ?bs u + ?ec P1 u" if "u < n" for u
    using that ffu [OF that] f t lf
    by (auto simp: ff2_def ff1_def nth_list_update ec1 q_def jt_def p_def cf_def)
  have ff2n: "ff2 ! n = ?bs n"
    using ffn f t by (simp add: ff2_def ff1_def)
  have slots2: "if j < ?ec P1 u then slot_paired n es P1 arcs2 u (arcs2 ! (?bs u + j))
                else arcs2 ! (?bs u + j) = 0"
    if "u < n" "j < ?ec es u" for u j
  proof (cases "u = t \<and> j = jt")
    case True
    with at_q jt1 new2 show ?thesis by simp
  next
    case nq: False
    show ?thesis
    proof (cases "u = f \<and> j = cf")
      case True
      with at_p cf1 new1 show ?thesis by simp
    next
      case np: False
      have same: "arcs2 ! (?bs u + j) = arcs ! (?bs u + j)"
        using nth2 [OF that] nq np by simp
      have iff: "j < ?ec P1 u \<longleftrightarrow> j < ?ec P u"
        using nq np by (auto simp: ec1 jt_def cf_def)
      from slots [OF that] old show ?thesis
        unfolding same iff by (cases "j < ?ec P u") simp_all
    qed
  qed
  have l2: "length arcs2 = 2 * length es + 1" "length ff2 = n + 1"
    using la lf by (simp_all add: arcs2_def arcs1_def ff2_def ff1_def)
  have "add_inv n es P1 arcs2 ff2"
    unfolding add_inv_def
    using l2 ff2n ff2u slots2 by blast
  with step show ?thesis unfolding P1_def by blast
qed

lemma add_arcs_correct:
  assumes "add_inv n es P arcs ff" and "es = P @ R"
    and "arcs_in_range n dir es" and "n \<le> 2 ^ 30" and "2 * length es < 2 ^ 32"
  shows "\<exists>arcs' ff'. add_arcs dbg dir True R arcs ff = Inr (arcs', ff') \<and> add_inv n es es arcs' ff'"
  using assms(1,2)
proof (induction R arbitrary: P arcs ff)
  case Nil
  then show ?case by simp
next
  case (Cons e R)
  obtain f t where e: "e = (f, t)" by (cases e)
  from add_arcs_step [OF Cons.prems(1) Cons.prems(2) [unfolded e] assms(3,4,5), of dbg]
  obtain arcs1 ff1 where
    s: "add_arcs dbg dir True ((f, t) # R) arcs ff = add_arcs dbg dir True R arcs1 ff1"
    and i: "add_inv n es (P @ [(f, t)]) arcs1 ff1"
    by blast
  have "es = (P @ [(f, t)]) @ R" using Cons.prems(2) e by simp
  from Cons.IH [OF i this] s show ?case by (simp add: e)
qed

lemma add_inv_initial:
  assumes "length ff = n + 1" and "\<forall>u\<le>n. ff ! u = block_start es u"
    and "arcs_in_range n dir es"
  shows "add_inv n es [] (replicate (2 * length es + 1) 0) ff"
proof -
  have tot: "block_start es n = 2 * length es"
    using assms(3) by (intro sum_endpoint_count) (auto simp: arcs_in_range_def list_all_iff)
  have z: "replicate (2 * length es + 1) (0 :: FastArc) ! (block_start es u + j) = 0"
    if "u < n" "j < endpoint_count es u" for u j
  proof -
    have "block_start es u + j < 2 * length es + 1"
      using slot_bound [OF that] tot by simp
    then show ?thesis by (rule nth_replicate)
  qed
  show ?thesis
    unfolding add_inv_def using assms(1,2) z by simp
qed

lemma arc_less_asym: "arc_less x y \<Longrightarrow> \<not> arc_less y x"
  by (auto simp: arc_less_def Let_def split: if_splits)

lemma arc_less_trans: "arc_less x y \<Longrightarrow> arc_less y z \<Longrightarrow> arc_less x z"
  by (auto simp: arc_less_def Let_def split: if_splits)

lemma arc_less_neg_trans: "\<not> arc_less x y \<Longrightarrow> \<not> arc_less y z \<Longrightarrow> \<not> arc_less x z"
  by (auto simp: arc_less_def Let_def split: if_splits)

lemma set_insert_arc [simp]: "set (insert_arc x ys) = insert x (set ys)"
  by (induction ys) auto

lemma length_insert_arc [simp]: "length (insert_arc x ys) = Suc (length ys)"
  by (induction ys) auto

lemma set_sort_arcs [simp]: "set (sort_arcs xs) = set xs"
  by (induction xs) (simp_all add: sort_arcs_def)

lemma length_sort_arcs [simp]: "length (sort_arcs xs) = length xs"
  by (induction xs) (simp_all add: sort_arcs_def)

lemma sorted_insert_arc: "sorted_block ys \<Longrightarrow> sorted_block (insert_arc x ys)"
proof (induction ys)
  case Nil
  show ?case by (simp add: sorted_block_def)
next
  case (Cons y ys)
  from Cons.prems have later: "\<forall>b\<in>set ys. \<not> arc_less b y" and s: "sorted_block ys"
    by (simp_all add: sorted_block_Cons)
  show ?case
  proof (cases "arc_less x y")
    case True
    have "\<not> arc_less b x" if "b \<in> set (y # ys)" for b
    proof (cases "b = y")
      case True
      with \<open>arc_less x y\<close> show ?thesis by (simp add: arc_less_asym)
    next
      case False
      with that later have "\<not> arc_less b y" by simp
      moreover have "\<not> arc_less y x" using \<open>arc_less x y\<close> by (rule arc_less_asym)
      ultimately show ?thesis by (rule arc_less_neg_trans)
    qed
    with True Cons.prems show ?thesis by (simp add: sorted_block_Cons)
  next
    case False
    with later Cons.IH [OF s] show ?thesis by (simp add: sorted_block_Cons)
  qed
qed

lemma sorted_sort_arcs: "sorted_block (sort_arcs xs)"
proof (induction xs)
  case Nil
  show ?case by (simp add: sort_arcs_def sorted_block_def)
next
  case (Cons x xs)
  then show ?case using sorted_insert_arc [of "sort_arcs xs" x] by (simp add: sort_arcs_def)
qed

lemma segment_replace:
  assumes "lo \<le> hi" and "hi \<le> length xs" and "length ys = hi - lo"
  shows "length (take lo xs @ ys @ drop hi xs) = length xs"
    and "segment (take lo xs @ ys @ drop hi xs) lo hi = ys"
    and "b \<le> lo \<Longrightarrow> segment (take lo xs @ ys @ drop hi xs) a b = segment xs a b"
    and "hi \<le> a \<Longrightarrow> segment (take lo xs @ ys @ drop hi xs) a b = segment xs a b"
proof -
  let ?zs = "take lo xs @ ys @ drop hi xs"
  show len: "length ?zs = length xs" using assms by simp
  show "segment ?zs lo hi = ys" using assms by (simp add: segment_def)
  show "segment ?zs a b = segment xs a b" if "b \<le> lo"
  proof -
    have "take b ?zs = take b xs" using that assms by simp
    then have "drop a (take b ?zs) = drop a (take b xs)" by (rule arg_cong)
    then show ?thesis by (simp only: segment_def drop_take)
  qed
  show "segment ?zs a b = segment xs a b" if "hi \<le> a"
  proof -
    have "drop a ?zs = drop a xs"
      using that assms by (simp add: min_def)
    then show ?thesis by (simp only: segment_def)
  qed
qed

lemma incident_arcs_segment:
  "incident_arcs g v = segment (Arcs g) (Vertices g ! v) (Vertices g ! (v + 1))"
  by (simp add: incident_arcs_def segment_def)

lemma sort_blocks_correct:
  assumes "length vs = n + 1" and "sorted vs" and "vs ! n \<le> length arcs" and "u \<le> n"
    and "\<forall>v<n. list_all Valid (segment arcs (vs ! v) (vs ! (v + 1)))"
  shows "\<exists>arcs'. sort_blocks dbg n u vs arcs = Inr arcs' \<and> length arcs' = length arcs
           \<and> (\<forall>v<n. segment arcs' (vs ! v) (vs ! (v + 1))
                 = (if u \<le> v then sort_arcs (segment arcs (vs ! v) (vs ! (v + 1)))
                    else segment arcs (vs ! v) (vs ! (v + 1))))"
  using assms(3,4,5)
proof (induction "n - u" arbitrary: u arcs)
  case 0
  then have "u = n" by simp
  then show ?case by (subst sort_blocks.simps) simp
next
  case (Suc k)
  then have u: "u < n" by simp
  define lo where "lo = vs ! u"
  define hi where "hi = vs ! (u + 1)"
  define block where "block = segment arcs lo hi"
  define arcs1 where "arcs1 = take lo arcs @ sort_arcs block @ drop hi arcs"
  have mono: "vs ! i \<le> vs ! j" if "i \<le> j" "j \<le> n" for i j
    using assms(1,2) that by (simp add: sorted_iff_nth_mono)
  have lohi: "lo \<le> hi" unfolding lo_def hi_def using u by (intro mono) simp_all
  have hil: "hi \<le> length arcs"
    using mono [of "u + 1" n] u Suc.prems(1) by (simp add: hi_def)
  have lb: "length (sort_arcs block) = hi - lo"
    using lohi hil by (simp add: block_def segment_def)
  note rep = segment_replace [OF lohi hil lb, folded arcs1_def]
  have valid: "list_all Valid block"
    using Suc.prems(3) u by (simp add: block_def lo_def hi_def)
  have e1: "elem_at vs u = Inr lo" using u assms(1) by (simp add: elem_at_def lo_def)
  have e2: "elem_at vs (u + 1) = Inr hi" using u assms(1) by (simp add: elem_at_def hi_def)
  have e3: "sort_range dbg arcs lo hi = Inr arcs1"
    using lohi hil valid
    by (simp add: sort_range_def Let_def arcs1_def block_def segment_def)
  have step: "sort_blocks dbg n u vs arcs = sort_blocks dbg n (u + 1) vs arcs1"
    by (subst sort_blocks.simps) (simp only: u e1 e2 e3 if_True sum.case)
  have seg1: "segment arcs1 (vs ! v) (vs ! (v + 1))
                = (if v = u then sort_arcs block else segment arcs (vs ! v) (vs ! (v + 1)))"
    if "v < n" for v
  proof -
    consider "v < u" | "v = u" | "u < v" by linarith
    then show ?thesis
    proof cases
      case 1
      then have "vs ! (v + 1) \<le> lo" unfolding lo_def using u by (intro mono) simp_all
      from rep(3) [OF this] 1 show ?thesis by simp
    next
      case 2
      then show ?thesis using rep(2) by (simp add: lo_def hi_def)
    next
      case 3
      then have "hi \<le> vs ! v" unfolding hi_def using that by (intro mono) simp_all
      from rep(4) [OF this] 3 show ?thesis by simp
    qed
  qed
  have k: "k = n - (u + 1)" using Suc.hyps(2) by simp
  have p1: "vs ! n \<le> length arcs1" using rep(1) Suc.prems(1) by simp
  have p2: "u + 1 \<le> n" using u by simp
  have p3: "\<forall>v<n. list_all Valid (segment arcs1 (vs ! v) (vs ! (v + 1)))"
    using seg1 Suc.prems(3) valid by (auto simp: list_all_iff)
  from Suc.hyps(1) [OF k p1 p2 p3] obtain arcs' where
    r: "sort_blocks dbg n (u + 1) vs arcs1 = Inr arcs'" "length arcs' = length arcs1"
    "\<forall>v<n. segment arcs' (vs ! v) (vs ! (v + 1))
        = (if u + 1 \<le> v then sort_arcs (segment arcs1 (vs ! v) (vs ! (v + 1)))
           else segment arcs1 (vs ! v) (vs ! (v + 1)))"
    by blast
  have "segment arcs' (vs ! v) (vs ! (v + 1))
          = (if u \<le> v then sort_arcs (segment arcs (vs ! v) (vs ! (v + 1)))
             else segment arcs (vs ! v) (vs ! (v + 1)))" if "v < n" for v
  proof -
    consider "v < u" | "v = u" | "u < v" by linarith
    then show ?thesis
      using r(3) seg1 [OF that] that
      by cases (simp_all add: block_def lo_def hi_def)
  qed
  with step r(1,2) rep(1) show ?case by simp
qed

lemma segment_nth:
  assumes "a + k \<le> length xs"
  shows "segment xs a (a + k) = map (\<lambda>j. xs ! (a + j)) [0..<k]"
  using assms by (intro nth_equalityI) (simp_all add: segment_def)

lemma set_segment_slots:
  assumes "block_start es (Suc u) \<le> length xs"
  shows "set (segment xs (block_start es u) (block_start es (Suc u)))
           = (\<lambda>j. xs ! (block_start es u + j)) ` {..<endpoint_count es u}"
proof -
  have "segment xs (block_start es u) (block_start es u + endpoint_count es u)
          = map (\<lambda>j. xs ! (block_start es u + j)) [0..<endpoint_count es u]"
    using assms by (intro segment_nth) (simp add: block_start_Suc)
  then show ?thesis by (simp add: block_start_Suc atLeast0LessThan)
qed

lemma endpoint_count_out_of_range:
  assumes "list_all (\<lambda>e. fst e < n \<and> snd e < n) es" and "n \<le> u"
  shows "endpoint_count es u = 0"
  using assms by (induction es) (auto simp: endpoint_count_def)

lemma paired_graph_from_inv:
  assumes inv: "add_inv n es es arcs0 ff"
    and nv: "NumVertices g = n"
    and blocks: "\<forall>u<n. set (incident_arcs g u)
                   = (\<lambda>j. arcs0 ! (block_start es u + j)) ` {..<endpoint_count es u}"
  shows "paired_graph g"
  unfolding paired_graph_def nv
proof (intro allI impI ballI)
  fix u a assume u: "u < n" and a: "a \<in> set (incident_arcs g u)"
  with blocks obtain j where j: "j < endpoint_count es u" "a = arcs0 ! (block_start es u + j)"
    by auto
  with inv u have sp: "slot_paired n es es arcs0 u a"
    by (auto simp: add_inv_def)
  have "\<exists>v<n. \<exists>b\<in>set (incident_arcs g v). Forward b \<and> unat (OtherVertexId b) = u"
    if "Backward a"
  proof -
    from sp that obtain v i where vi: "v < n" "i < endpoint_count es v"
      "Forward (arcs0 ! (block_start es v + i))"
      "unat (OtherVertexId (arcs0 ! (block_start es v + i))) = u"
      by (auto simp: slot_paired_def)
    then have "arcs0 ! (block_start es v + i) \<in> set (incident_arcs g v)"
      using blocks by auto
    with vi show ?thesis by blast
  qed
  with sp show "Valid a \<and> unat (OtherVertexId a) < n \<and>
         (Backward a \<longrightarrow> (\<exists>v<n. \<exists>b\<in>set (incident_arcs g v). Forward b \<and> unat (OtherVertexId b) = u))"
    by (simp add: slot_paired_def)
qed

lemma ReadFromArcList_incoming:
  assumes rng: "arcs_in_range n dir es" and n30: "n \<le> 2 ^ 30"
    and m32: "2 * length es < 2 ^ 32"
  shows "\<exists>g. ReadFromArcList dbg n es dir True = Inr g
           \<and> NumVertices g = n \<and> NumArcs g = 2 * length es
           \<and> length (Vertices g) = n + 1
           \<and> (\<forall>u\<le>n. Vertices g ! u = block_start es u)
           \<and> length (Arcs g) = 2 * length es + 1
           \<and> paired_graph g
           \<and> (dir \<longrightarrow> (\<forall>u<n. sorted_block (incident_arcs g u)))"
proof -
  let ?bs = "block_start es" and ?ec = "endpoint_count es"
  let ?m2 = "length es * 2"
  have inr: "list_all (\<lambda>e. fst e < n \<and> snd e < n) es"
    using rng by (auto simp: arcs_in_range_def list_all_iff)
  have tot: "?bs n = 2 * length es" by (rule sum_endpoint_count [OF inr])
  \<comment> \<open>the degrees\<close>
  define zs where "zs = replicate (n + 1) (0 :: nat)"
  have zl: "length zs = n + 1" by (simp add: zs_def)
  have zn: "zs ! u = 0" if "u \<le> n" for u
    unfolding zs_def using that by (intro nth_replicate) simp
  have zb: "\<forall>u\<le>n. zs ! u + ?ec u < 2 ^ 32"
  proof (intro allI impI)
    fix u assume "u \<le> n"
    with zn have "zs ! u + ?ec u = ?ec u" by simp
    with endpoint_count_le [of es u] m32 show "zs ! u + ?ec u < 2 ^ 32" by simp
  qed
  from count_degrees_correct [OF rng zl zb, of dbg] zn
  obtain vs1 where c: "count_degrees dbg n dir True es zs = Inr vs1"
    and l1: "length vs1 = n + 1" and d1: "\<forall>u\<le>n. vs1 ! u = ?ec u"
    by auto
  \<comment> \<open>the offsets\<close>
  have pre: "(\<Sum>i = 0..<j. vs1 ! i) = ?bs j" if "j \<le> n" for j
    unfolding block_start_def atLeast0LessThan using d1 that by (intro sum.cong) auto
  have rb: "0 + (\<Sum>i = 0..<n. vs1 ! i) < 2 ^ 32"
    using pre [of n] tot m32 by simp
  from rewire_correct [OF l1 zl _ rb]
  obtain vs2 ff2 where r: "rewire n 0 0 vs1 zs = Inr (?bs n, vs2, ff2)"
    and l2: "length vs2 = n + 1" "length ff2 = n + 1"
    and v2: "\<forall>j<n. vs2 ! j = ?bs j" and f2: "\<forall>j<n. ff2 ! j = ?bs j"
    using pre by auto
  define ff3 where "ff3 = ff2[n := ?bs n]"
  have p3: "put ff2 n (?bs n) = Inr ff3" by (simp add: put_def ff3_def l2)
  have l3: "length ff3 = n + 1" by (simp add: ff3_def l2)
  have f3: "\<forall>u\<le>n. ff3 ! u = ?bs u"
    using f2 l2 by (auto simp: ff3_def nth_list_update)
  have as: "Assert dbg (?bs n = ?m2) = Inr ()" by (simp add: Assert_def tot)
  \<comment> \<open>the arcs\<close>
  define za where "za = replicate (?m2 + 1) (0 :: FastArc)"
  have za: "za = replicate (2 * length es + 1) 0" by (simp add: za_def mult.commute)
  have "add_inv n es [] za ff3"
    unfolding za by (rule add_inv_initial [OF l3 f3 rng])
  from add_arcs_correct [OF this _ rng n30 m32, of es dbg]
  obtain arcs4 ff4 where a: "add_arcs dbg dir True es za ff3 = Inr (arcs4, ff4)"
    and inv: "add_inv n es es arcs4 ff4"
    by auto
  have l4: "length arcs4 = ?m2 + 1" using inv by (simp add: add_inv_def)
  define arcs5 where "arcs5 = arcs4[?m2 := SetOtherVertexId (of_nat n) (arcs4 ! ?m2)]"
  have e5: "elem_at arcs4 ?m2 = Inr (arcs4 ! ?m2)" by (simp add: elem_at_def l4)
  have p5: "put arcs4 ?m2 (SetOtherVertexId (of_nat n) (arcs4 ! ?m2)) = Inr arcs5"
    by (simp add: put_def arcs5_def l4)
  have l5: "length arcs5 = ?m2 + 1" by (simp add: arcs5_def l4)
  define vs6 where "vs6 = vs2[n := ?m2]"
  have "?m2 < 2 ^ 32" using m32 by (simp add: mult.commute)
  then have w6: "arc_id ?m2 = ?m2" by (rule arc_id_small)
  have p6: "put vs2 n (arc_id ?m2) = Inr vs6" by (simp add: put_def vs6_def l2 w6)
  have l6: "length vs6 = n + 1" by (simp add: vs6_def l2)
  have v6: "\<forall>u\<le>n. vs6 ! u = ?bs u"
    using v2 l2 tot by (auto simp: vs6_def nth_list_update)
  have s6: "sorted vs6"
    unfolding sorted_iff_nth_mono using v6 l6 by (auto intro: block_start_mono)
  have slot5: "arcs5 ! (?bs u + j) = arcs4 ! (?bs u + j)" if "u < n" "j < ?ec u" for u j
    using slot_bound [OF that] tot by (simp add: arcs5_def)
  have seg5: "set (segment arcs5 (vs6 ! u) (vs6 ! (u + 1)))
                = (\<lambda>j. arcs4 ! (?bs u + j)) ` {..<?ec u}" if "u < n" for u
  proof -
    have "?bs (Suc u) \<le> length arcs5"
      using block_start_mono [of "Suc u" n es] that tot l5 by simp
    from set_segment_slots [OF this] v6 that slot5 [OF that] show ?thesis
      by (auto simp: image_iff)
  qed
  have valid5: "\<forall>v<n. list_all Valid (segment arcs5 (vs6 ! v) (vs6 ! (v + 1)))"
  proof (intro allI impI)
    fix v assume v: "v < n"
    have "Valid (arcs4 ! (?bs v + j))" if "j < ?ec v" for j
      using inv v that by (auto simp: add_inv_def slot_paired_def)
    then show "list_all Valid (segment arcs5 (vs6 ! v) (vs6 ! (v + 1)))"
      unfolding list_all_iff seg5 [OF v] by auto
  qed
  have rd: "ReadFromArcList dbg n es dir True
              = (if dir
                 then (case sort_blocks dbg n 0 vs6 arcs5 of
                         Inl e \<Rightarrow> Inl e
                       | Inr arcs \<Rightarrow>
                           Inr \<lparr>NumVertices = n, NumArcs = ?m2, IsDirected = dir,
                                Vertices = vs6, Arcs = arcs\<rparr>)
                 else Inr \<lparr>NumVertices = n, NumArcs = ?m2, IsDirected = dir,
                           Vertices = vs6, Arcs = arcs5\<rparr>)"
    unfolding ReadFromArcList_def Let_def
    by (simp only: simp_thms if_True zs_def [symmetric] za_def [symmetric] c r p3 as a e5 p5 p6
        sum.case prod.case)
  show ?thesis
  proof (cases dir)
    case False
    define g where "g = \<lparr>NumVertices = n, NumArcs = ?m2, IsDirected = dir,
                           Vertices = vs6, Arcs = arcs5\<rparr>"
    have "ReadFromArcList dbg n es dir True = Inr g"
      using rd False by (simp add: g_def)
    moreover have "paired_graph g"
    proof (rule paired_graph_from_inv [OF inv])
      show "NumVertices g = n" by (simp add: g_def)
      show "\<forall>u<n. set (incident_arcs g u)
              = (\<lambda>j. arcs4 ! (?bs u + j)) ` {..<?ec u}"
        using seg5 by (simp add: g_def incident_arcs_segment)
    qed
    moreover have "NumVertices g = n" "NumArcs g = 2 * length es"
      "length (Vertices g) = n + 1" "\<forall>u\<le>n. Vertices g ! u = ?bs u"
      "length (Arcs g) = 2 * length es + 1"
      using l6 v6 l5 by (simp_all add: g_def)
    ultimately show ?thesis using False by blast
  next
    case True
    have le: "vs6 ! n \<le> length arcs5" using v6 tot l5 by simp
    from sort_blocks_correct [OF l6 s6 le _ valid5, of 0 dbg]
    obtain arcs7 where s: "sort_blocks dbg n 0 vs6 arcs5 = Inr arcs7"
      and l7: "length arcs7 = length arcs5"
      and seg7: "\<forall>v<n. segment arcs7 (vs6 ! v) (vs6 ! (v + 1))
                   = sort_arcs (segment arcs5 (vs6 ! v) (vs6 ! (v + 1)))"
      by auto
    define g where "g = \<lparr>NumVertices = n, NumArcs = ?m2, IsDirected = dir,
                           Vertices = vs6, Arcs = arcs7\<rparr>"
    have "ReadFromArcList dbg n es dir True = Inr g"
      using rd True s by (simp add: g_def)
    moreover have "paired_graph g"
    proof (rule paired_graph_from_inv [OF inv])
      show "NumVertices g = n" by (simp add: g_def)
      show "\<forall>u<n. set (incident_arcs g u)
              = (\<lambda>j. arcs4 ! (?bs u + j)) ` {..<?ec u}"
        using seg5 seg7 by (simp add: g_def incident_arcs_segment)
    qed
    moreover have "\<forall>u<n. sorted_block (incident_arcs g u)"
      using seg7 by (simp add: g_def incident_arcs_segment sorted_sort_arcs)
    moreover have "NumVertices g = n" "NumArcs g = 2 * length es"
      "length (Vertices g) = n + 1" "\<forall>u\<le>n. Vertices g ! u = ?bs u"
      "length (Arcs g) = 2 * length es + 1"
      using l6 v6 l5 l7 by (simp_all add: g_def)
    ultimately show ?thesis by blast
  qed
qed

text \<open>
  With incoming arcs the builder does what the claim says.  For every arc list of size
  \<open>m\<close> with endpoints in range (and \<open>from < to\<close> when the graph is undirected), at most
  \<open>2 ^ 30\<close> vertices and \<open>2 * m < 2 ^ 32\<close>, so that every arc id fits its 32 bits,
  \<^verbatim>\<open>ReadFromArcList\<close> with incoming arcs returns a graph whose header holds \<open>2 * m\<close>
  arcs, whose sentinel vertex has \<^verbatim>\<open>FirstArcId\<close> equal to that number, and whose sequence of
  \<^verbatim>\<open>FirstArcId\<close> does not decrease.
\<close>

lemma ReadFromArcList_incoming_arc_count:
  assumes "arcs_in_range n isDirected inArcs" and "n \<le> 2 ^ 30"
    and "2 * length inArcs < 2 ^ 32"
  shows "\<exists>g. ReadFromArcList dbg n inArcs isDirected True = Inr g
           \<and> NumVertices g = n \<and> NumArcs g = 2 * length inArcs
           \<and> length (Vertices g) = n + 1 \<and> Vertices g ! n = NumArcs g
           \<and> FirstArcId_monotone g"
proof -
  from ReadFromArcList_incoming [OF assms, of dbg] obtain g where
    g: "ReadFromArcList dbg n inArcs isDirected True = Inr g" "NumVertices g = n"
    "NumArcs g = 2 * length inArcs" "length (Vertices g) = n + 1"
    "\<forall>u\<le>n. Vertices g ! u = block_start inArcs u"
    by blast
  have "list_all (\<lambda>e. fst e < n \<and> snd e < n) inArcs"
    using assms(1) by (auto simp: arcs_in_range_def list_all_iff)
  then have "block_start inArcs n = 2 * length inArcs" by (rule sum_endpoint_count)
  with g(3,5) have last: "Vertices g ! n = NumArcs g" by simp
  have "sorted (Vertices g)"
    unfolding sorted_iff_nth_mono using g(4,5) by (auto intro: block_start_mono)
  then have "FirstArcId_monotone g" by (simp add: FirstArcId_monotone_def)
  with g(1-4) last show ?thesis by blast
qed

text \<open>
  Claim C4.  Without incoming arcs the builder does not do what the claim says, nor what
  its own assertion says.  The number of arcs is doubled under
  \<^verbatim>\<open>buildIncomingArcs || isDirected\<close> (line 340), where the message, the size of the
  memory, the two passes over the arcs and \<^verbatim>\<open>ReadFromDisk\<close> have
  \<^verbatim>\<open>buildIncomingArcs || !isDirected\<close>.  For the directed arc list \<open>[(0, 1)]\<close> on two
  vertices, \<open>m = 1\<close>: the passes count and write one entry, the header holds 2 arcs, the
  assertion \<^verbatim>\<open>currentFirstArc == numArcs\<close> fails when assertions are compiled in, and
  without them the graph is returned with the sentinel vertex at 2 and an entry without a
  flag in the block of vertex 1.  For the undirected arc list \<open>[(0, 1), (1, 2)]\<close> on
  three vertices no graph is built: four entries are written into an array allocated for
  two arcs.
\<close>

theorem ReadFromArcList_without_incoming_arc_count_differs:
  "ReadFromArcList True 2 [(0, 1)] True False = Inl Assertion_failed
   \<and> ReadFromArcList False 2 [(0, 1)] True False
       = Inr \<lparr>NumVertices = 2, NumArcs = 2, IsDirected = True,
              Vertices = [0, 1, 2], Arcs = [0x40000001, 0, 2]\<rparr>
   \<and> length [(0, 1 :: nat)] = (1 :: nat)
   \<and> incident_arcs \<lparr>NumVertices = 2, NumArcs = 2, IsDirected = True,
                     Vertices = [0, 1, 2], Arcs = [0x40000001, 0, 2]\<rparr> 1 = [0]
   \<and> \<not> Valid 0
   \<and> ReadFromArcList True 3 [(0, 1), (1, 2)] False False = Inl Assertion_failed
   \<and> ReadFromArcList False 3 [(0, 1), (1, 2)] False False = Inl Out_of_bounds"
  by (simp add: ReadFromArcList_def Assert_def elem_at_def put_def Let_def numeral_3_eq_3
      numeral_2_eq_2 rewire.simps add_outgoing_def add_incoming_def SetOtherVertexId_def
      SetForwardFlag_def arc_id_numeral incident_arcs_def Valid_def)
section \<open>The in-degree in the weighted model\<close>

lemma count_indeg_correct:
  assumes "\<forall>a\<in>set as. unat (OtherVertexId a) < length indeg"
  shows "\<exists>indeg'. count_indeg as indeg = Inr indeg' \<and> length indeg' = length indeg
           \<and> (\<forall>v<length indeg. indeg' ! v
                 = indeg ! v + of_nat (length (filter (\<lambda>a. Forward a \<and> unat (OtherVertexId a) = v) as)))"
  using assms
proof (induction as arbitrary: indeg)
  case Nil
  then show ?case by simp
next
  case (Cons a as)
  show ?case
  proof (cases "Forward a")
    case False
    with Cons.IH [of indeg] Cons.prems show ?thesis by simp
  next
    case True
    let ?o = "unat (OtherVertexId a)"
    define indeg1 where "indeg1 = indeg[?o := indeg ! ?o + 1]"
    have o: "?o < length indeg" using Cons.prems by simp
    have l1: "length indeg1 = length indeg" by (simp add: indeg1_def)
    have "\<forall>b\<in>set as. unat (OtherVertexId b) < length indeg1"
      using Cons.prems l1 by simp
    from Cons.IH [OF this] obtain indeg' where
      r: "count_indeg as indeg1 = Inr indeg'" "length indeg' = length indeg1"
      "\<forall>v<length indeg1. indeg' ! v
          = indeg1 ! v + of_nat (length (filter (\<lambda>a. Forward a \<and> unat (OtherVertexId a) = v) as))"
      by blast
    have step: "count_indeg (a # as) indeg = count_indeg as indeg1"
      using True o by (simp add: elem_at_def put_def indeg1_def)
    have "indeg' ! v = indeg ! v
            + of_nat (length (filter (\<lambda>a. Forward a \<and> unat (OtherVertexId a) = v) (a # as)))"
      if "v < length indeg" for v
      using r(3) that True l1 o by (auto simp: indeg1_def nth_list_update)
    with step r(1,2) l1 show ?thesis by simp
  qed
qed

lemma of_nat_32_nonzero:
  assumes "0 < k" and "k < 2 ^ 32"
  shows "(of_nat k :: 32 word) \<noteq> 0"
proof
  assume "(of_nat k :: 32 word) = 0"
  then have "unat (of_nat k :: 32 word) = 0" by simp
  then have "k mod 2 ^ 32 = 0" by (simp add: unat_of_nat)
  with assms show False by simp
qed

lemma length_FORALL_ARCS:
  assumes "NumVertices g = n" and "\<forall>u\<le>n. Vertices g ! u = block_start es u"
    and "block_start es n < length (Arcs g)"
  shows "length (FORALL_ARCS g) = block_start es n"
proof -
  have "length (incident_arcs g u) = endpoint_count es u" if "u < n" for u
  proof -
    have "block_start es (Suc u) \<le> block_start es n"
      using that by (intro block_start_mono) simp
    with assms(3) have "block_start es u + endpoint_count es u \<le> length (Arcs g)"
      by (simp add: block_start_Suc)
    then show ?thesis
      using assms(2) that by (simp add: incident_arcs_def block_start_Suc)
  qed
  then have "map length (map (incident_arcs g) [0..<n]) = map (endpoint_count es) [0..<n]"
    by simp
  then have "sum_list (map length (map (incident_arcs g) [0..<n]))
               = sum_list (map (endpoint_count es) [0..<n])"
    by (rule arg_cong)
  then have "length (FORALL_ARCS g) = sum_list (map (endpoint_count es) [0..<n])"
    by (simp only: FORALL_ARCS_def assms(1) length_concat)
  also have "\<dots> = block_start es n"
    by (simp add: interv_sum_list_conv_sum_set_nat block_start_def atLeast0LessThan)
  finally show ?thesis .
qed

lemma ne_set_nonempty: "x \<in> set xs \<Longrightarrow> xs \<noteq> []"
  by auto

lemma indeg_of_paired_graph:
  assumes pg: "paired_graph g" and len: "length (FORALL_ARCS g) < 2 ^ 32"
  shows "\<exists>indeg. compute_indeg g = Inr indeg \<and> length indeg = NumVertices g
           \<and> (\<forall>u<NumVertices g. \<forall>a\<in>set (incident_arcs g u).
                 (Forward a \<longrightarrow> indeg ! unat (OtherVertexId a) \<noteq> 0)
               \<and> (Backward a \<longrightarrow> indeg ! u \<noteq> 0))"
proof -
  let ?n = "NumVertices g"
  let ?cnt = "\<lambda>v. length (filter (\<lambda>a. Forward a \<and> unat (OtherVertexId a) = v) (FORALL_ARCS g))"
  have mem: "a \<in> set (FORALL_ARCS g)" if "u < ?n" "a \<in> set (incident_arcs g u)" for u a
    using that by (auto simp: FORALL_ARCS_def)
  have other: "unat (OtherVertexId a) < ?n" if "a \<in> set (FORALL_ARCS g)" for a
    using that pg by (auto simp: FORALL_ARCS_def paired_graph_def)
  then have "\<forall>a\<in>set (FORALL_ARCS g). unat (OtherVertexId a) < length (replicate ?n (0 :: 32 word))"
    by simp
  from count_indeg_correct [OF this] obtain indeg where
    i: "compute_indeg g = Inr indeg" "length indeg = ?n"
    "\<forall>v<?n. indeg ! v = of_nat (?cnt v)"
    by (auto simp: compute_indeg_def)
  have nz: "indeg ! v \<noteq> 0"
    if "v < ?n" "b \<in> set (FORALL_ARCS g)" "Forward b" "unat (OtherVertexId b) = v" for v b
  proof -
    have "b \<in> set (filter (\<lambda>a. Forward a \<and> unat (OtherVertexId a) = v) (FORALL_ARCS g))"
      using that by simp
    then have "filter (\<lambda>a. Forward a \<and> unat (OtherVertexId a) = v) (FORALL_ARCS g) \<noteq> []"
      by (rule ne_set_nonempty)
    then have "0 < ?cnt v" by simp
    moreover have "?cnt v \<le> length (FORALL_ARCS g)" by (rule length_filter_le)
    then have "?cnt v < 2 ^ 32" using len by (rule le_less_trans)
    ultimately have "(of_nat (?cnt v) :: 32 word) \<noteq> 0"
      by (rule of_nat_32_nonzero)
    with i(3) that(1) show ?thesis by simp
  qed
  have "(Forward a \<longrightarrow> indeg ! unat (OtherVertexId a) \<noteq> 0) \<and> (Backward a \<longrightarrow> indeg ! u \<noteq> 0)"
    if "u < ?n" "a \<in> set (incident_arcs g u)" for u a
  proof (intro conjI impI)
    assume "Forward a"
    with nz [OF other [OF mem [OF that]] mem [OF that]]
    show "indeg ! unat (OtherVertexId a) \<noteq> 0" by simp
  next
    assume "Backward a"
    with pg that obtain v b where "v < ?n" "b \<in> set (incident_arcs g v)" "Forward b"
      "unat (OtherVertexId b) = u"
      unfolding paired_graph_def by blast
    with nz [OF that(1) mem [of v b]] show "indeg ! u \<noteq> 0" by simp
  qed
  with i(1,2) show ?thesis by blast
qed

lemma Contained_WEIGHTED_defined:
  assumes "unat v < length indeg" and "indeg ! unat v \<noteq> 0"
  shows "\<exists>b. Contained_WEIGHTED randomSeed indeg u v i l = Inr b"
  using assms by (simp add: Contained_WEIGHTED_def elem_at_def Let_def)

text \<open>
  Claim C10.  On a graph built from an arc list with incoming arcs, as both executables
  build it, with the in-degrees of the constructor: for every vertex \<open>u\<close>, every forward
  arc \<open>a\<close> of \<open>u\<close> (the searches of the evaluation call \<^verbatim>\<open>Contained(u, v, i, l)\<close> with
  \<open>v\<close> the other endpoint of \<open>a\<close>) and every backward arc \<open>a\<close> of \<open>u\<close> (the reverse
  searches call \<^verbatim>\<open>Contained(v, u, i, l)\<close>) has a second argument whose in-degree is not 0,
  and the weighted predicate returns a value: the division is defined.  The scans of the
  searches see a part of these arcs.
\<close>

theorem Contained_WEIGHTED_second_argument_has_indegree:
  assumes "ReadFromArcList dbg n inArcs isDirected True = Inr g"
    and "arcs_in_range n isDirected inArcs" and "n \<le> 2 ^ 30"
    and "2 * length inArcs < 2 ^ 32"
  shows "\<exists>indeg. compute_indeg g = Inr indeg
           \<and> (\<forall>u<n. \<forall>a\<in>set (incident_arcs g u).
                 (Forward a \<longrightarrow>
                    indeg ! unat (OtherVertexId a) \<noteq> 0
                    \<and> (\<exists>b. Contained_WEIGHTED randomSeed indeg (of_nat u) (OtherVertexId a) i l
                              = Inr b))
               \<and> (Backward a \<longrightarrow>
                    indeg ! u \<noteq> 0
                    \<and> (\<exists>b. Contained_WEIGHTED randomSeed indeg (OtherVertexId a) (of_nat u) i l
                              = Inr b)))"
proof -
  from ReadFromArcList_incoming [OF assms(2,3,4), of dbg] obtain g' where
    g': "ReadFromArcList dbg n inArcs isDirected True = Inr g'" "NumVertices g' = n"
    "\<forall>u\<le>n. Vertices g' ! u = block_start inArcs u"
    "length (Arcs g') = 2 * length inArcs + 1" "paired_graph g'"
    by blast
  from g'(1) assms(1) have "g' = g" by simp
  with g'(2-5)
  have nv: "NumVertices g = n" and vs: "\<forall>u\<le>n. Vertices g ! u = block_start inArcs u"
    and la: "length (Arcs g) = 2 * length inArcs + 1" and pg: "paired_graph g"
    by simp_all
  have "list_all (\<lambda>e. fst e < n \<and> snd e < n) inArcs"
    using assms(2) by (auto simp: arcs_in_range_def list_all_iff)
  then have tot: "block_start inArcs n = 2 * length inArcs" by (rule sum_endpoint_count)
  have "length (FORALL_ARCS g) = block_start inArcs n"
    using la tot by (intro length_FORALL_ARCS [OF nv vs]) simp
  with tot assms(4) have "length (FORALL_ARCS g) < 2 ^ 32" by simp
  from indeg_of_paired_graph [OF pg this] nv obtain indeg where
    i: "compute_indeg g = Inr indeg" "length indeg = n"
    "\<forall>u<n. \<forall>a\<in>set (incident_arcs g u).
        (Forward a \<longrightarrow> indeg ! unat (OtherVertexId a) \<noteq> 0) \<and> (Backward a \<longrightarrow> indeg ! u \<noteq> 0)"
    by auto
  have "(Forward a \<longrightarrow>
            indeg ! unat (OtherVertexId a) \<noteq> 0
            \<and> (\<exists>b. Contained_WEIGHTED randomSeed indeg (of_nat u) (OtherVertexId a) i l = Inr b))
        \<and> (Backward a \<longrightarrow>
            indeg ! u \<noteq> 0
            \<and> (\<exists>b. Contained_WEIGHTED randomSeed indeg (OtherVertexId a) (of_nat u) i l = Inr b))"
    if u: "u < n" and a: "a \<in> set (incident_arcs g u)" for u a
  proof (intro conjI impI)
    assume f: "Forward a"
    with i(3) u a show nz: "indeg ! unat (OtherVertexId a) \<noteq> 0" by blast
    have "unat (OtherVertexId a) < length indeg"
      using pg u a nv i(2) by (auto simp: paired_graph_def)
    then show "\<exists>b. Contained_WEIGHTED randomSeed indeg (of_nat u) (OtherVertexId a) i l = Inr b"
      using nz by (rule Contained_WEIGHTED_defined)
  next
    assume b: "Backward a"
    with i(3) u a show nz: "indeg ! u \<noteq> 0" by blast
    have "(2 :: nat) ^ 30 < 2 ^ 32" by simp
    with u assms(3) have "u < 2 ^ 32" by linarith
    then have uu: "unat (of_nat u :: 32 word) = u" by (simp add: unat_of_nat)
    have "unat (of_nat u :: 32 word) < length indeg" "indeg ! unat (of_nat u :: 32 word) \<noteq> 0"
      using uu u i(2) nz by simp_all
    then show "\<exists>b. Contained_WEIGHTED randomSeed indeg (OtherVertexId a) (of_nat u) i l = Inr b"
      by (rule Contained_WEIGHTED_defined)
  qed
  with i(1) show ?thesis by blast
qed

lemma ReadFromArcList_example:
  "ReadFromArcList False 3 [(0, 1), (2, 1)] True True
     = Inr \<lparr>NumVertices = 3, NumArcs = 4, IsDirected = True, Vertices = [0, 1, 3, 4],
            Arcs = [0x40000001, 0x80000000, 0x80000002, 0x40000001, 3]\<rparr>"
  by (simp add: ReadFromArcList_def Assert_def elem_at_def put_def Let_def numeral_3_eq_3
      numeral_2_eq_2 arc_id_numeral rewire.simps sort_blocks.simps sort_range_def sort_arcs_def arc_less_def
      direction_bucket_def Forward_def Backward_def OtherVertexId_def
      add_outgoing_def add_incoming_def SetOtherVertexId_def SetForwardFlag_def
      SetBackwardFlag_def)

theorem Contained_WEIGHTED_second_argument_has_indegree_witness:
  "\<exists>indeg. compute_indeg \<lparr>NumVertices = 3, NumArcs = 4, IsDirected = True,
                    Vertices = [0, 1, 3, 4],
                    Arcs = [0x40000001, 0x80000000, 0x80000002, 0x40000001, 3]\<rparr> = Inr indeg
     \<and> (\<forall>u<3. \<forall>a\<in>set (incident_arcs \<lparr>NumVertices = 3, NumArcs = 4, IsDirected = True,
                    Vertices = [0, 1, 3, 4],
                    Arcs = [0x40000001, 0x80000000, 0x80000002, 0x40000001, 3]\<rparr> u).
           (Forward a \<longrightarrow>
              indeg ! unat (OtherVertexId a) \<noteq> 0
              \<and> (\<exists>b. Contained_WEIGHTED 31101982 indeg (of_nat u) (OtherVertexId a) 0 64 = Inr b))
         \<and> (Backward a \<longrightarrow>
              indeg ! u \<noteq> 0
              \<and> (\<exists>b. Contained_WEIGHTED 31101982 indeg (OtherVertexId a) (of_nat u) 0 64 = Inr b)))"
proof -
  have 1: "arcs_in_range 3 True [(0, 1), (2, 1)]" by (simp add: arcs_in_range_def)
  have 2: "(3 :: nat) \<le> 2 ^ 30" by simp
  have 3: "2 * length [(0 :: nat, 1 :: nat), (2, 1)] < (2 :: nat) ^ 32" by simp
  show ?thesis
    by (rule Contained_WEIGHTED_second_argument_has_indegree [OF ReadFromArcList_example 1 2 3])
qed

section \<open>The sketches of RunPreprocessing\<close>

lemma fs_inv_new: "fs_inv n (FastSet_new n)"
  by (simp add: fs_inv_def FastSet_new_def)

lemma clear_flags_correct:
  "\<forall>key\<in>set keys. key < length ic
     \<Longrightarrow> \<exists>ic'. clear_flags keys ic = Inr ic' \<and> length ic' = length ic
            \<and> (\<forall>j<length ic. ic' ! j = (if j \<in> set keys then False else ic ! j))"
proof (induction keys arbitrary: ic)
  case Nil
  then show ?case by simp
next
  case (Cons key keys)
  from Cons.prems have k: "key < length ic" and ks: "\<forall>x\<in>set keys. x < length (ic[key := False])"
    by simp_all
  from Cons.IH [OF ks] obtain ic' where 1: "clear_flags keys (ic[key := False]) = Inr ic'"
    and 2: "length ic' = length ic"
    and 3: "\<forall>j<length ic. ic' ! j = (if j \<in> set keys then False else ic[key := False] ! j)"
    by auto
  have "clear_flags (key # keys) ic = Inr ic'"
    using k 1 by (simp add: put_def)
  moreover have "\<forall>j<length ic. ic' ! j = (if j \<in> set (key # keys) then False else ic ! j)"
    using 3 k by (auto simp: nth_list_update)
  ultimately show ?case using 2 by blast
qed

lemma FastSet_Clear_correct:
  assumes "fs_inv n S"
  shows "\<exists>S'. FastSet_Clear S = Inr S' \<and> fs_inv n S' \<and> containedKeys S' = []"
proof -
  from assms have "\<forall>key\<in>set (containedKeys S). key < length (isContained S)"
    by (simp add: fs_inv_def)
  from clear_flags_correct [OF this] obtain ic' where
    1: "clear_flags (containedKeys S) (isContained S) = Inr ic'"
    and 2: "length ic' = length (isContained S)"
    and 3: "\<forall>j<length (isContained S). ic' ! j
              = (if j \<in> set (containedKeys S) then False else isContained S ! j)"
    by blast
  have "FastSet_Clear S = Inr \<lparr>isContained = ic', containedKeys = []\<rparr>"
    using 1 by (simp add: FastSet_Clear_def)
  moreover have "fs_inv n \<lparr>isContained = ic', containedKeys = []\<rparr>"
    using assms 2 3 by (auto simp: fs_inv_def)
  ultimately show ?thesis by simp
qed

lemma FastSet_IsContained_correct:
  assumes "fs_inv n S" and "key < n"
  shows "FastSet_IsContained dbg S key = Inr (key \<in> set (containedKeys S))"
  using assms by (simp add: fs_inv_def FastSet_IsContained_def Assert_def elem_at_def)

lemma FastSet_Insert_correct:
  assumes "fs_inv n S" and "key < n"
  shows "\<exists>S'. FastSet_Insert dbg S key = Inr S' \<and> fs_inv n S'
           \<and> containedKeys S'
               = (if key \<in> set (containedKeys S) then containedKeys S
                  else containedKeys S @ [key])"
proof -
  define S' where "S' = \<lparr>isContained = (isContained S)[key := True],
    containedKeys = (if key \<in> set (containedKeys S) then containedKeys S
                     else containedKeys S @ [key])\<rparr>"
  have "FastSet_Insert dbg S key = Inr S'"
    using assms
    by (simp add: fs_inv_def FastSet_Insert_def FastSet_IsContained_def Assert_def elem_at_def
        put_def S'_def)
  moreover have "fs_inv n S'"
    using assms by (auto simp: fs_inv_def S'_def nth_list_update)
  ultimately show ?thesis by (simp add: S'_def)
qed

lemma arc_expansion_correct:
  assumes "fs_inv n S"
    and "\<forall>a\<in>set as. unat (OtherVertexId a) < n \<and> (\<exists>c. Contained (OtherVertexId a) u i l = Inr c)"
  shows "\<exists>S'. arc_expansion dbg Contained u i l as S = Inr S' \<and> fs_inv n S'
           \<and> (\<exists>new. containedKeys S' = containedKeys S @ new)
           \<and> set (containedKeys S')
               = set (containedKeys S)
                 \<union> {unat (OtherVertexId a) | a. a \<in> set as
                        \<and> Contained (OtherVertexId a) u i l = Inr True}"
  using assms
proof (induction as arbitrary: S)
  case Nil
  then show ?case by simp
next
  case (Cons a as)
  let ?v = "OtherVertexId a"
  from Cons.prems(2) have v: "unat ?v < n" and "\<exists>c. Contained ?v u i l = Inr c"
    and rest: "\<forall>a\<in>set as. unat (OtherVertexId a) < n
                 \<and> (\<exists>c. Contained (OtherVertexId a) u i l = Inr c)"
    by simp_all
  then obtain c where c: "Contained ?v u i l = Inr c" by blast
  show ?case
  proof (cases "c \<and> unat ?v \<notin> set (containedKeys S)")
    case True
    from FastSet_Insert_correct [OF Cons.prems(1) v, of dbg] True obtain S1 where
      1: "FastSet_Insert dbg S (unat ?v) = Inr S1" and 2: "fs_inv n S1"
      and 3: "containedKeys S1 = containedKeys S @ [unat ?v]"
      by auto
    from Cons.IH [OF 2 rest] obtain S' new where
      4: "arc_expansion dbg Contained u i l as S1 = Inr S'" and 5: "fs_inv n S'"
      and 6: "containedKeys S' = containedKeys S1 @ new"
      and 7: "set (containedKeys S') = set (containedKeys S1)
                 \<union> {unat (OtherVertexId a) | a. a \<in> set as
                        \<and> Contained (OtherVertexId a) u i l = Inr True}"
      by blast
    have "arc_expansion dbg Contained u i l (a # as) S = Inr S'"
      using True c 1 4 FastSet_IsContained_correct [OF Cons.prems(1) v, of dbg]
      by (simp add: Let_def)
    moreover have "containedKeys S' = containedKeys S @ (unat ?v # new)"
      using 3 6 by simp
    moreover have "set (containedKeys S') = set (containedKeys S)
                 \<union> {unat (OtherVertexId b) | b. b \<in> set (a # as)
                        \<and> Contained (OtherVertexId b) u i l = Inr True}"
      using 7 3 True c by auto
    ultimately show ?thesis using 5 by blast
  next
    case False
    from Cons.IH [OF Cons.prems(1) rest] obtain S' new where
      4: "arc_expansion dbg Contained u i l as S = Inr S'" and 5: "fs_inv n S'"
      and 6: "containedKeys S' = containedKeys S @ new"
      and 7: "set (containedKeys S') = set (containedKeys S)
                 \<union> {unat (OtherVertexId a) | a. a \<in> set as
                        \<and> Contained (OtherVertexId a) u i l = Inr True}"
      by blast
    have "arc_expansion dbg Contained u i l (a # as) S = Inr S'"
      using False c 4 FastSet_IsContained_correct [OF Cons.prems(1) v, of dbg]
      by (auto simp: Let_def)
    moreover have "set (containedKeys S') = set (containedKeys S)
                 \<union> {unat (OtherVertexId b) | b. b \<in> set (a # as)
                        \<and> Contained (OtherVertexId b) u i l = Inr True}"
      using 7 False c by auto
    ultimately show ?thesis using 5 6 by blast
  qed
qed

lemma backward_scan_subset:
  "set (backward_scan g u) \<subseteq> {a \<in> set (incident_arcs g u). Backward a}"
proof
  fix a assume "a \<in> set (backward_scan g u)"
  then have "a \<in> set (rev (incident_arcs g u)) \<and> Backward a"
    unfolding backward_scan_def FORALL_INCIDENT_ARCS_BACKWARD_def by (rule set_takeWhileD)
  then show "a \<in> {a \<in> set (incident_arcs g u). Backward a}" by simp
qed

lemma search_graph_sorted_blocks:
  assumes "NumVertices g < 2 ^ 32"
    and "\<forall>u<NumVertices g. (\<forall>a\<in>set (incident_arcs g u). Valid a)
           \<and> sorted_block (incident_arcs g u)"
    and "\<forall>u<NumVertices g. \<forall>a\<in>set (incident_arcs g u). Backward a \<longrightarrow>
           unat (OtherVertexId a) < NumVertices g \<and>
           (\<forall>i<l. \<exists>c. Contained (OtherVertexId a) (of_nat u) (of_nat i) (of_nat l) = Inr c)"
  shows "search_graph Contained g l"
proof -
  have "a \<in> set (backward_scan g u)"
    if "u < NumVertices g" and "a \<in> set (incident_arcs g u)" and "Backward a" for u a
  proof -
    from assms(2) that(1) have "\<forall>a\<in>set (incident_arcs g u). Valid a"
      and "sorted_block (incident_arcs g u)"
      by simp_all
    then have "backward_scan g u = rev (filter Backward (incident_arcs g u))"
      unfolding backward_scan_def FORALL_INCIDENT_ARCS_BACKWARD_def
      by (rule takeWhile_Backward_rev_sorted)
    with that(2,3) show ?thesis by simp
  qed
  with assms(1,3) show ?thesis by (simp add: search_graph_def)
qed

lemma backward_scan_arcs:
  assumes "search_graph Contained g l" and "u < NumVertices g" and "i < l"
  shows "\<forall>a\<in>set (backward_scan g u). unat (OtherVertexId a) < NumVertices g
           \<and> (\<exists>c. Contained (OtherVertexId a) (of_nat u) (of_nat i) (of_nat l) = Inr c)"
    and "{unat (OtherVertexId a) | a. a \<in> set (backward_scan g u)
            \<and> Contained (OtherVertexId a) (of_nat u) (of_nat i) (of_nat l) = Inr True}
         = {v. instance_arc Contained g l i v u}"
proof -
  from assms(1,2) have A: "\<forall>a\<in>set (incident_arcs g u). Backward a \<longrightarrow>
           a \<in> set (backward_scan g u) \<and>
           unat (OtherVertexId a) < NumVertices g \<and>
           (\<forall>i<l. \<exists>c. Contained (OtherVertexId a) (of_nat u) (of_nat i) (of_nat l) = Inr c)"
    by (simp add: search_graph_def)
  with backward_scan_subset [of g u]
  have scan: "set (backward_scan g u) = {a \<in> set (incident_arcs g u). Backward a}"
    by auto
  show "\<forall>a\<in>set (backward_scan g u). unat (OtherVertexId a) < NumVertices g
           \<and> (\<exists>c. Contained (OtherVertexId a) (of_nat u) (of_nat i) (of_nat l) = Inr c)"
    using A assms(3) by (simp add: scan)
  show "{unat (OtherVertexId a) | a. a \<in> set (backward_scan g u)
            \<and> Contained (OtherVertexId a) (of_nat u) (of_nat i) (of_nat l) = Inr True}
         = {v. instance_arc Contained g l i v u}"
    using assms(2) by (auto simp: scan instance_arc_def)
qed

lemma sketch_bfs_correct:
  assumes "search_graph Contained g l" and "i < l"
    and "lw = of_nat l" and "iw = of_nat i"
    and "fs_inv (NumVertices g) S"
    and "bfs_inv (instance_arc Contained g l i) (NumVertices g) k rank L0 src
           (containedKeys S) ind L"
  shows "\<exists>S' L'. sketch_bfs dbg Contained g k lw iw rank S ind L = Inr (S', L')
           \<and> fs_inv (NumVertices g) S'
           \<and> bfs_inv (instance_arc Contained g l i) (NumVertices g) k rank L0 src
               (containedKeys S') (length (containedKeys S')) L'"
  using assms
proof (induction dbg Contained g k lw iw rank S ind L rule: sketch_bfs.induct)
  case (1 dbg Contained g k lw iw rank S ind L)
  let ?n = "NumVertices g"
  let ?arc = "instance_arc Contained g l i"
  let ?keys = "containedKeys S"
  note sg = \<open>search_graph Contained g l\<close> and il = \<open>i < l\<close> and lw = \<open>lw = of_nat l\<close>
    and iw = \<open>iw = of_nat i\<close> and fs = \<open>fs_inv ?n S\<close>
  note inv = \<open>bfs_inv ?arc ?n k rank L0 src ?keys ind L\<close>
  from inv have le: "ind \<le> length ?keys" and lenL: "length L = ?n" and src: "src \<in> set ?keys"
    and reach: "\<forall>v\<in>set ?keys. ?arc\<^sup>*\<^sup>* v src"
    and exp: "\<forall>j<ind. length (L0 ! (?keys ! j)) < k \<longrightarrow> (\<forall>v. ?arc v (?keys ! j) \<longrightarrow> v \<in> set ?keys)"
    and sk: "\<forall>u<?n. L ! u = (if u \<in> set (take ind ?keys) \<and> length (L0 ! u) < k
                      then L0 ! u @ [rank] else L0 ! u)"
    by (simp_all add: bfs_inv_def)
  show ?case
  proof (cases "ind < length ?keys")
    case False
    with le have "ind = length ?keys" by simp
    moreover have "sketch_bfs dbg Contained g k lw iw rank S ind L = Inr (S, L)"
      using False by (subst sketch_bfs.simps) (simp add: FastSet_Size_def)
    ultimately show ?thesis using fs inv by simp
  next
    case True
    define u where "u = ?keys ! ind"
    have u_in: "u \<in> set ?keys" using True by (simp add: u_def)
    with fs have un: "u < ?n" by (simp add: fs_inv_def)
    have key: "FastSet_KeyByIndex dbg S ind = Inr u"
      using True by (simp add: FastSet_KeyByIndex_def Assert_def elem_at_def u_def)
    from fs have dist: "distinct ?keys" by (simp add: fs_inv_def)
    have tk: "take (Suc ind) ?keys = take ind ?keys @ [u]"
      using True by (simp add: take_Suc_conv_app_nth u_def)
    have "distinct (take (Suc ind) ?keys)" using dist by (rule distinct_take)
    then have u_new: "u \<notin> set (take ind ?keys)" by (simp add: tk)
    have Y: "elem_at L u = Inr (L0 ! u)"
      using un lenL sk u_new by (simp add: elem_at_def)
    show ?thesis
    proof (cases "k \<le> length (L0 ! u)")
      case sat: True
      have inv': "bfs_inv ?arc ?n k rank L0 src ?keys (ind + 1) L"
        unfolding bfs_inv_def
      proof (intro conjI)
        show "ind + 1 \<le> length ?keys" using True by simp
        show "\<forall>j<ind + 1. length (L0 ! (?keys ! j)) < k
                \<longrightarrow> (\<forall>v. ?arc v (?keys ! j) \<longrightarrow> v \<in> set ?keys)"
          using exp sat by (auto simp: less_Suc_eq u_def)
        show "\<forall>w<?n. L ! w = (if w \<in> set (take (ind + 1) ?keys) \<and> length (L0 ! w) < k
                      then L0 ! w @ [rank] else L0 ! w)"
          using sk sat by (auto simp: tk)
      qed (use lenL src reach in simp_all)
      from "1.IH"(1) [OF _ key Y _ sg il lw iw fs inv'] True sat
      obtain S' L' where r: "sketch_bfs dbg Contained g k lw iw rank S (ind + 1) L = Inr (S', L')"
        and r1: "fs_inv ?n S'"
        and r2: "bfs_inv ?arc ?n k rank L0 src (containedKeys S') (length (containedKeys S')) L'"
        by (auto simp: FastSet_Size_def)
      have "sketch_bfs dbg Contained g k lw iw rank S ind L = Inr (S', L')"
        using True key Y sat r by (subst sketch_bfs.simps) (simp add: FastSet_Size_def)
      then show ?thesis using r1 r2 by blast
    next
      case unsat: False
      define L1 where "L1 = L[u := L0 ! u @ [rank]]"
      have put: "put L u (L0 ! u @ [rank]) = Inr L1"
        using un lenL by (simp add: put_def L1_def)
      from backward_scan_arcs [OF sg un il] have
        scan1: "\<forall>a\<in>set (backward_scan g u). unat (OtherVertexId a) < ?n
           \<and> (\<exists>c. Contained (OtherVertexId a) (of_nat u) iw lw = Inr c)"
        and scan2: "{unat (OtherVertexId a) | a. a \<in> set (backward_scan g u)
            \<and> Contained (OtherVertexId a) (of_nat u) iw lw = Inr True} = {v. ?arc v u}"
        by (simp_all add: lw iw)
      from arc_expansion_correct [where Contained = Contained and u = "of_nat u" and i = iw
          and l = lw and dbg = dbg, OF fs scan1] obtain S1 new where
        ex: "arc_expansion dbg Contained (of_nat u) iw lw (backward_scan g u) S = Inr S1"
        and fs1: "fs_inv ?n S1"
        and keys1: "containedKeys S1 = ?keys @ new"
        and set1: "set (containedKeys S1) = set ?keys \<union> {v. ?arc v u}"
        by (auto simp: scan2)
      have inv': "bfs_inv ?arc ?n k rank L0 src (containedKeys S1) (ind + 1) L1"
        unfolding bfs_inv_def
      proof (intro conjI)
        show "ind + 1 \<le> length (containedKeys S1)" using True by (simp add: keys1)
        show "length L1 = ?n" using lenL by (simp add: L1_def)
        show "src \<in> set (containedKeys S1)" using src by (simp add: set1)
        show "\<forall>v\<in>set (containedKeys S1). ?arc\<^sup>*\<^sup>* v src"
        proof
          fix v assume "v \<in> set (containedKeys S1)"
          then consider "v \<in> set ?keys" | "?arc v u" by (auto simp: set1)
          then show "?arc\<^sup>*\<^sup>* v src"
          proof cases
            case 1
            then show ?thesis using reach by simp
          next
            case 2
            moreover have "?arc\<^sup>*\<^sup>* u src" using reach u_in by simp
            ultimately show ?thesis by (rule converse_rtranclp_into_rtranclp)
          qed
        qed
        show "\<forall>j<ind + 1. length (L0 ! (containedKeys S1 ! j)) < k
                \<longrightarrow> (\<forall>v. ?arc v (containedKeys S1 ! j) \<longrightarrow> v \<in> set (containedKeys S1))"
        proof (intro allI impI)
          fix j v assume j: "j < ind + 1"
            and "length (L0 ! (containedKeys S1 ! j)) < k"
            and "?arc v (containedKeys S1 ! j)"
          moreover from j True have "containedKeys S1 ! j = ?keys ! j"
            by (simp add: keys1 nth_append)
          ultimately have a: "length (L0 ! (?keys ! j)) < k" "?arc v (?keys ! j)" by simp_all
          show "v \<in> set (containedKeys S1)"
          proof (cases "j < ind")
            case True
            with exp a have "v \<in> set ?keys" by blast
            then show ?thesis by (simp add: set1)
          next
            case False
            with j have "j = ind" by simp
            with a show ?thesis by (simp add: set1 u_def)
          qed
        qed
        have "take (ind + 1) (containedKeys S1) = take ind ?keys @ [u]"
          using True tk by (simp add: keys1)
        then show "\<forall>w<?n. L1 ! w
                     = (if w \<in> set (take (ind + 1) (containedKeys S1)) \<and> length (L0 ! w) < k
                        then L0 ! w @ [rank] else L0 ! w)"
          using sk unsat lenL un u_new by (auto simp: L1_def nth_list_update)
      qed
      from "1.IH"(2) [OF _ key Y _ put ex sg il lw iw fs1 inv'] True unsat
      obtain S' L' where r: "sketch_bfs dbg Contained g k lw iw rank S1 (ind + 1) L1 = Inr (S', L')"
        and r1: "fs_inv ?n S'"
        and r2: "bfs_inv ?arc ?n k rank L0 src (containedKeys S') (length (containedKeys S')) L'"
        by (auto simp: FastSet_Size_def)
      have "sketch_bfs dbg Contained g k lw iw rank S ind L = Inr (S', L')"
        using True key Y unsat put ex r by (subst sketch_bfs.simps) (simp add: FastSet_Size_def)
      then show ?thesis using r1 r2 by blast
    qed
  qed
qed

lemma instance_arc_range:
  assumes "search_graph Contained g l" and "instance_arc Contained g l i v u"
  shows "u < NumVertices g" and "v < NumVertices g"
  using assms by (auto simp: search_graph_def instance_arc_def)

lemma sketch_from_source_correct:
  assumes sg: "search_graph Contained g l" and il: "i < l"
    and fs: "fs_inv (NumVertices g) S"
    and lenL: "length L0 = NumVertices g"
    and src: "src < NumVertices g"
    and closed: "\<forall>v u. instance_arc Contained g l i v u \<longrightarrow> k \<le> length (L0 ! u)
                   \<longrightarrow> k \<le> length (L0 ! v)"
  shows "\<exists>S' L'. sketch_from_source dbg Contained g k (of_nat l) (of_nat i) (rank, src) S L0
                    = Inr (S', L')
           \<and> fs_inv (NumVertices g) S' \<and> length L' = NumVertices g
           \<and> (\<forall>v<NumVertices g. L' ! v
                 = (if reverse_reaches Contained g l i src v \<and> length (L0 ! v) < k
                    then L0 ! v @ [rank] else L0 ! v))"
proof -
  let ?n = "NumVertices g"
  let ?arc = "instance_arc Contained g l i"
  from FastSet_Clear_correct [OF fs] obtain S0 where
    c: "FastSet_Clear S = Inr S0" and fs0: "fs_inv ?n S0" and k0: "containedKeys S0 = []"
    by blast
  from FastSet_Insert_correct [OF fs0 src, of dbg] obtain S1 where
    i: "FastSet_Insert dbg S0 src = Inr S1" and fs1: "fs_inv ?n S1"
    and k1: "containedKeys S1 = [src]"
    by (auto simp: k0)
  have "bfs_inv ?arc ?n k rank L0 src (containedKeys S1) 0 L0"
    by (simp add: bfs_inv_def k1 lenL)
  from sketch_bfs_correct [OF sg il refl refl fs1 this, of dbg] obtain S' L' where
    r: "sketch_bfs dbg Contained g k (of_nat l) (of_nat i) rank S1 0 L0 = Inr (S', L')"
    and fs': "fs_inv ?n S'"
    and inv: "bfs_inv ?arc ?n k rank L0 src (containedKeys S') (length (containedKeys S')) L'"
    by blast
  let ?keys = "containedKeys S'"
  from inv have lenL': "length L' = ?n" and src_in: "src \<in> set ?keys"
    and reach: "\<forall>v\<in>set ?keys. ?arc\<^sup>*\<^sup>* v src"
    and exp: "\<forall>j<length ?keys. length (L0 ! (?keys ! j)) < k
                \<longrightarrow> (\<forall>v. ?arc v (?keys ! j) \<longrightarrow> v \<in> set ?keys)"
    and sk: "\<forall>u<?n. L' ! u = (if u \<in> set ?keys \<and> length (L0 ! u) < k
                      then L0 ! u @ [rank] else L0 ! u)"
    by (simp_all add: bfs_inv_def)
  have found: "length (L0 ! v) < k \<longrightarrow> v \<in> set ?keys" if "?arc\<^sup>*\<^sup>* v src" for v
    using that
  proof (induction rule: converse_rtranclp_induct)
    case base
    show ?case using src_in by simp
  next
    case (step y z)
    show ?case
    proof
      assume y: "length (L0 ! y) < k"
      with closed step.hyps(1) have "length (L0 ! z) < k"
        by (meson not_le)
      with step.IH have "z \<in> set ?keys" by simp
      then obtain j where "j < length ?keys" and "?keys ! j = z"
        by (auto simp: in_set_conv_nth)
      with exp \<open>length (L0 ! z) < k\<close> step.hyps(1) show "y \<in> set ?keys" by blast
    qed
  qed
  have "sketch_from_source dbg Contained g k (of_nat l) (of_nat i) (rank, src) S L0
          = Inr (S', L')"
    using c i r by (simp add: sketch_from_source_def)
  moreover have "\<forall>v<?n. L' ! v
                 = (if reverse_reaches Contained g l i src v \<and> length (L0 ! v) < k
                    then L0 ! v @ [rank] else L0 ! v)"
    using sk reach found by (auto simp: reverse_reaches_def)
  ultimately show ?thesis using fs' lenL' by blast
qed

lemma length_filter_mono:
  "(\<And>x. x \<in> set xs \<Longrightarrow> P x \<Longrightarrow> Q x) \<Longrightarrow> length (filter P xs) \<le> length (filter Q xs)"
  by (induction xs) auto

lemma take_snoc_bottom:
  "take k (F @ [r]) = (if length F < k then F @ [r] else take k F)"
  by simp

lemma instance_pass_correct:
  assumes sg: "search_graph Contained g l" and il: "i < l"
    and srcs: "\<forall>e\<in>set ranks. snd e < NumVertices g"
  shows "fs_inv (NumVertices g) S \<Longrightarrow> length L = NumVertices g
     \<Longrightarrow> js = [a..<length ranks]
     \<Longrightarrow> \<forall>v<NumVertices g. L ! v
           = take k (map fst (filter (\<lambda>e. reverse_reaches Contained g l i (snd e) v)
                                (take a ranks)))
     \<Longrightarrow> \<exists>S' L'. instance_pass dbg Contained g k (of_nat l) (of_nat i) ranks js S L
                     = Inr (S', L')
            \<and> fs_inv (NumVertices g) S' \<and> length L' = NumVertices g
            \<and> (\<forall>v<NumVertices g. L' ! v
                  = take k (map fst (filter (\<lambda>e. reverse_reaches Contained g l i (snd e) v)
                                       ranks)))"
proof (induction js arbitrary: a S L)
  case Nil
  from Nil.prems(3) have "[a..<length ranks] = []" by simp
  then have "take a ranks = ranks" by auto
  with Nil show ?case by simp
next
  case (Cons j js)
  let ?n = "NumVertices g"
  let ?arc = "instance_arc Contained g l i"
  let ?P = "\<lambda>v e. reverse_reaches Contained g l i (snd e) v"
  let ?F = "\<lambda>v. map fst (filter (?P v) (take a ranks))"
  from Cons.prems(3) [symmetric] have a: "a < length ranks" and j: "j = a"
    and js: "js = [Suc a..<length ranks]"
    by (auto simp: upt_eq_Cons_conv)
  obtain rank src where e: "ranks ! a = (rank, src)" by (cases "ranks ! a")
  with a srcs have src: "src < ?n"
    by (metis nth_mem snd_conv)
  note L = Cons.prems(4)
  have closed: "\<forall>v u. ?arc v u \<longrightarrow> k \<le> length (L ! u) \<longrightarrow> k \<le> length (L ! v)"
  proof (intro allI impI)
    fix v u assume arc: "?arc v u" and sat: "k \<le> length (L ! u)"
    from instance_arc_range [OF sg arc] have u: "u < ?n" and v: "v < ?n" .
    have "length (filter (?P u) (take a ranks)) \<le> length (filter (?P v) (take a ranks))"
    proof (rule length_filter_mono)
      fix x assume "?P u x"
      with arc show "?P v x"
        unfolding reverse_reaches_def by (rule converse_rtranclp_into_rtranclp)
    qed
    with sat L u v show "k \<le> length (L ! v)" by simp
  qed
  from sketch_from_source_correct [OF sg il Cons.prems(1,2) src closed, of dbg rank]
  obtain S1 L1 where
    r: "sketch_from_source dbg Contained g k (of_nat l) (of_nat i) (rank, src) S L
          = Inr (S1, L1)"
    and fs1: "fs_inv ?n S1" and len1: "length L1 = ?n"
    and L1: "\<forall>v<?n. L1 ! v = (if reverse_reaches Contained g l i src v \<and> length (L ! v) < k
                              then L ! v @ [rank] else L ! v)"
    by blast
  have tk: "take (Suc a) ranks = take a ranks @ [(rank, src)]"
    using a e by (simp add: take_Suc_conv_app_nth)
  have inv1: "\<forall>v<?n. L1 ! v = take k (map fst (filter (?P v) (take (Suc a) ranks)))"
  proof (intro allI impI)
    fix v assume v: "v < ?n"
    with L have Lv: "L ! v = take k (?F v)" by simp
    show "L1 ! v = take k (map fst (filter (?P v) (take (Suc a) ranks)))"
    proof (cases "reverse_reaches Contained g l i src v")
      case True
      then have "map fst (filter (?P v) (take (Suc a) ranks)) = ?F v @ [rank]"
        by (simp add: tk)
      moreover have "L1 ! v = (if length (?F v) < k then ?F v @ [rank] else take k (?F v))"
        using L1 v True Lv by auto
      ultimately show ?thesis by (simp only: take_snoc_bottom)
    next
      case False
      then have "map fst (filter (?P v) (take (Suc a) ranks)) = ?F v"
        by (simp add: tk)
      with False L1 v Lv show ?thesis by simp
    qed
  qed
  from Cons.IH [OF fs1 len1 js inv1] obtain S' L' where
    r': "instance_pass dbg Contained g k (of_nat l) (of_nat i) ranks js S1 L1 = Inr (S', L')"
    and res: "fs_inv ?n S'" "length L' = ?n"
      "\<forall>v<?n. L' ! v = take k (map fst (filter (?P v) ranks))"
    by blast
  have "instance_pass dbg Contained g k (of_nat l) (of_nat i) ranks (j # js) S L = Inr (S', L')"
    using a j e r r' by (simp add: elem_at_def)
  with res show ?case by blast
qed

lemma set_union_Nil2: "set_union xs [] = xs"
  by (cases xs) simp_all

lemma set_union_take:
  "k \<le> a \<Longrightarrow> k \<le> b \<Longrightarrow> take k (set_union (take a A) (take b B)) = take k (set_union A B)"
proof (induction A B arbitrary: k a b rule: set_union.induct)
  case (1 ys)
  then show ?case by (simp add: min_def)
next
  case (2 x xs)
  then show ?case by (simp add: set_union_Nil2 min_def)
next
  case (3 x xs y ys)
  show ?case
  proof (cases k)
    case 0
    then show ?thesis by simp
  next
    case (Suc k')
    with "3.prems" obtain a' b' where a: "a = Suc a'" and b: "b = Suc b'"
      and le: "k' \<le> a'" "k' \<le> b'"
      by (cases a; cases b) simp_all
    consider "x < y" | "y < x" | "x = y" by (meson less_linear)
    then show ?thesis
    proof cases
      case 1
      from "3.IH"(1) [OF 1, of k' a' "Suc b'"] le
      have "take k' (set_union (take a' xs) (y # take b' ys)) = take k' (set_union xs (y # ys))"
        by simp
      with 1 show ?thesis by (simp add: Suc a b)
    next
      case 2
      then have n: "\<not> x < y" by simp
      from "3.IH"(2) [OF n 2, of k' "Suc a'" b'] le
      have "take k' (set_union (x # take a' xs) (take b' ys)) = take k' (set_union (x # xs) ys)"
        by simp
      with 2 n show ?thesis by (simp add: Suc a b)
    next
      case 3
      then have n: "\<not> x < y" "\<not> y < x" by simp_all
      from "3.IH"(3) [OF n, of k' a' b'] le
      have "take k' (set_union (take a' xs) (take b' ys)) = take k' (set_union xs ys)"
        by simp
      with 3 show ?thesis by (simp add: Suc a b)
    qed
  qed
qed

lemma set_union_Cons1:
  "\<forall>y\<in>set ys. x < y \<Longrightarrow> set_union (x # xs) ys = x # set_union xs ys"
  by (cases ys) (simp_all add: set_union_Nil2)

lemma set_union_Cons2:
  "\<forall>x\<in>set xs. y < x \<Longrightarrow> set_union xs (y # ys) = y # set_union xs ys"
  by (cases xs) auto

lemma set_union_filter:
  "sorted_wrt (<) R \<Longrightarrow> set_union (filter P R) (filter Q R) = filter (\<lambda>x. P x \<or> Q x) R"
proof (induction R)
  case Nil
  then show ?case by simp
next
  case (Cons r R)
  then have IH: "set_union (filter P R) (filter Q R) = filter (\<lambda>x. P x \<or> Q x) R"
    and lt: "\<forall>x\<in>set R. r < x"
    by simp_all
  from lt have 1: "\<forall>y\<in>set (filter Q R). r < y" and 2: "\<forall>x\<in>set (filter P R). r < x"
    by simp_all
  show ?case
    using IH set_union_Cons1 [OF 1, of "filter P R"] set_union_Cons2 [OF 2, of "filter Q R"]
    by simp
qed

lemma set_union_bottom_k:
  assumes "sorted_wrt (<) R"
  shows "take k (set_union (take k (filter P R)) (take k (filter Q R)))
           = take k (filter (\<lambda>x. P x \<or> Q x) R)"
  using set_union_take [of k k k "filter P R" "filter Q R"] set_union_filter [OF assms, of P Q]
  by simp

lemma merge_sketches_correct:
  "length X = n \<Longrightarrow> length L = n \<Longrightarrow> us = [a..<n]
     \<Longrightarrow> \<exists>X' L'. merge_sketches k us X L = Inr (X', L') \<and> length X' = n \<and> length L' = n
           \<and> (\<forall>u<n. X' ! u = (if a \<le> u then take k (set_union (X ! u) (L ! u)) else X ! u))
           \<and> (\<forall>u<n. L' ! u = (if a \<le> u then [] else L ! u))"
proof (induction us arbitrary: a X L)
  case Nil
  from Nil.prems(3) [symmetric] have "n \<le> a" by auto
  with Nil show ?case by simp
next
  case (Cons u us)
  from Cons.prems(3) [symmetric] have a: "a < n" and u: "u = a" and us: "us = [Suc a..<n]"
    by (auto simp: upt_eq_Cons_conv)
  define Z where "Z = take k (set_union (X ! a) (L ! a))"
  have Z: "(if k < length (set_union (X ! a) (L ! a)) then take k (set_union (X ! a) (L ! a))
             else set_union (X ! a) (L ! a)) = Z"
    by (simp add: Z_def)
  have lens: "length (X[a := Z]) = n" "length (L[a := []]) = n"
    using Cons.prems(1,2) by simp_all
  from Cons.IH [OF lens us] obtain X' L' where
    r: "merge_sketches k us (X[a := Z]) (L[a := []]) = Inr (X', L')"
    and len: "length X' = n" "length L' = n"
    and X': "\<forall>u<n. X' ! u = (if Suc a \<le> u
                 then take k (set_union (X[a := Z] ! u) (L[a := []] ! u)) else X[a := Z] ! u)"
    and L': "\<forall>u<n. L' ! u = (if Suc a \<le> u then [] else L[a := []] ! u)"
    by blast
  have "merge_sketches k (u # us) X L = Inr (X', L')"
    using a u Cons.prems(1,2) r by (simp add: elem_at_def put_def Let_def Z)
  moreover have "\<forall>u<n. X' ! u = (if a \<le> u then take k (set_union (X ! u) (L ! u)) else X ! u)"
  proof (intro allI impI)
    fix w assume w: "w < n"
    consider "w < a" | "w = a" | "Suc a \<le> w" by linarith
    then show "X' ! w = (if a \<le> w then take k (set_union (X ! w) (L ! w)) else X ! w)"
      using X' w Cons.prems(1,2) by cases (simp_all add: Z_def)
  qed
  moreover have "\<forall>u<n. L' ! u = (if a \<le> u then [] else L ! u)"
  proof (intro allI impI)
    fix w assume w: "w < n"
    consider "w < a" | "w = a" | "Suc a \<le> w" by linarith
    then show "L' ! w = (if a \<le> w then [] else L ! w)"
      using L' w Cons.prems(1,2) by cases simp_all
  qed
  ultimately show ?case using len by blast
qed

lemma div_eq_block:
  fixes n :: nat
  assumes "0 < n"
  shows "p div n = i \<longleftrightarrow> i * n \<le> p \<and> p < i * n + n"
proof
  assume "p div n = i"
  then have "i * n + p mod n = p" by (metis div_mult_mod_eq)
  moreover have "p mod n < n" using assms by simp
  ultimately show "i * n \<le> p \<and> p < i * n + n" by linarith
next
  assume a: "i * n \<le> p \<and> p < i * n + n"
  then obtain d where d: "p = i * n + d" and "d < n"
    by (metis add_less_cancel_left le_Suc_ex)
  then show "p div n = i" by simp
qed

lemma instance_size:
  assumes "distinct permutation" and "set permutation = {0..<n * l}" and "i < l"
  shows "length (filter (\<lambda>r. rank_instance n permutation r = i) [0..<length permutation]) = n"
proof (cases "n = 0")
  case True
  with assms(2) show ?thesis by simp
next
  case False
  let ?P = "\<lambda>p. p div n = i"
  have "filter ?P permutation
          = map (nth permutation) (filter (\<lambda>r. ?P (permutation ! r)) [0..<length permutation])"
    using filter_map [of ?P "nth permutation" "[0..<length permutation]"]
    by (simp add: map_nth comp_def)
  then have "length (filter (\<lambda>r. rank_instance n permutation r = i) [0..<length permutation])
               = length (filter ?P permutation)"
    by (simp add: rank_instance_def)
  also have "\<dots> = card ({p. ?P p} \<inter> set permutation)"
    using assms(1) by (rule distinct_length_filter)
  also have "{p. ?P p} \<inter> set permutation = {i * n..<i * n + n}"
  proof -
    have "i * n + n \<le> n * l"
    proof -
      from assms(3) have "Suc i \<le> l" by simp
      then have "Suc i * n \<le> l * n" by (rule mult_le_mono1)
      then show ?thesis by (simp add: mult.commute)
    qed
    then show ?thesis
      using False by (auto simp: assms(2) div_eq_block)
  qed
  also have "card {i * n..<i * n + n} = n" by simp
  finally show ?thesis .
qed

lemma group_ranks_correct:
  assumes perm: "\<forall>p\<in>set permutation. p < n * l" and l: "l < 2 ^ 16" and n: "n < 2 ^ 32"
  shows "length IR = l \<Longrightarrow> rs = [a..<length permutation] \<Longrightarrow> a \<le> length permutation
     \<Longrightarrow> \<forall>i<l. IR ! i = map (\<lambda>r. (r, rank_source n permutation r))
                          (filter (\<lambda>r. rank_instance n permutation r = i) [0..<a])
     \<Longrightarrow> \<exists>IR'. group_ranks dbg n l permutation rs IR = Inr IR' \<and> length IR' = l
           \<and> (\<forall>i<l. IR' ! i = map (\<lambda>r. (r, rank_source n permutation r))
                          (filter (\<lambda>r. rank_instance n permutation r = i)
                             [0..<length permutation]))"
proof (induction rs arbitrary: a IR)
  case Nil
  from Nil.prems(2) [symmetric] have "length permutation \<le> a" by auto
  with Nil.prems(3) have "a = length permutation" by simp
  with Nil show ?case by simp
next
  case (Cons r rs)
  from Cons.prems(2) [symmetric] have a: "a < length permutation" and r: "r = a"
    and rs: "rs = [Suc a..<length permutation]"
    by (auto simp: upt_eq_Cons_conv)
  define p where "p = permutation ! a"
  from a perm have pl: "p < n * l" by (simp add: p_def)
  then have n0: "0 < n" by (cases n) simp_all
  from pl have "p div n < l"
    by (simp add: less_mult_imp_div_less mult.commute)
  with l have i1: "(p div n) mod 65536 = p div n" and il: "p div n < l" by simp_all
  from n0 have un: "p mod n < n" by simp
  with n have u1: "(p mod n) mod 4294967296 = p mod n" by simp
  define IR1 where "IR1 = IR[p div n := IR ! (p div n) @ [(a, p mod n)]]"
  have len1: "length IR1 = l" using Cons.prems(1) by (simp add: IR1_def)
  have inv1: "\<forall>i<l. IR1 ! i = map (\<lambda>r. (r, rank_source n permutation r))
                          (filter (\<lambda>r. rank_instance n permutation r = i) [0..<Suc a])"
    using Cons.prems(1,4) il
    by (auto simp: IR1_def nth_list_update rank_instance_def rank_source_def p_def)
  from a have "Suc a \<le> length permutation" by simp
  from Cons.IH [OF len1 rs this inv1] obtain IR' where
    r': "group_ranks dbg n l permutation rs IR1 = Inr IR'" and res: "length IR' = l"
      "\<forall>i<l. IR' ! i = map (\<lambda>r. (r, rank_source n permutation r))
                          (filter (\<lambda>r. rank_instance n permutation r = i)
                             [0..<length permutation])"
    by blast
  have "group_ranks dbg n l permutation (r # rs) IR = Inr IR'"
    using a r n0 il un r' Cons.prems(1)
    by (simp add: elem_at_def put_def Assert_def Let_def p_def [symmetric] i1 u1
        IR1_def [symmetric])
  with res show ?case by blast
qed

lemma all_instances_correct:
  assumes sg: "search_graph Contained g l"
    and lenIR: "length IR = l"
    and IR: "\<forall>i<l. IR ! i = map (\<lambda>r. (r, rank_source (NumVertices g) permutation r))
                 (filter (\<lambda>r. rank_instance (NumVertices g) permutation r = i)
                    [0..<length permutation])"
    and size: "\<forall>i<l. length (IR ! i) = NumVertices g"
  shows "fs_inv (NumVertices g) S \<Longrightarrow> length X = NumVertices g \<Longrightarrow> length L = NumVertices g
     \<Longrightarrow> \<forall>v<NumVertices g. L ! v = [] \<Longrightarrow> is = [a..<l] \<Longrightarrow> a \<le> l
     \<Longrightarrow> \<forall>v<NumVertices g. X ! v
           = take k (filter (\<lambda>r. rank_instance (NumVertices g) permutation r < a
                        \<and> reverse_reaches Contained g l
                            (rank_instance (NumVertices g) permutation r)
                            (rank_source (NumVertices g) permutation r) v)
                       [0..<length permutation])
     \<Longrightarrow> \<exists>X'. all_instances dbg Contained g k l IR is S X L = Inr X'
           \<and> length X' = NumVertices g
           \<and> (\<forall>v<NumVertices g. X' ! v
                 = take k (filter (\<lambda>r. rank_instance (NumVertices g) permutation r < l
                        \<and> reverse_reaches Contained g l
                            (rank_instance (NumVertices g) permutation r)
                            (rank_source (NumVertices g) permutation r) v)
                       [0..<length permutation]))"
proof (induction "is" arbitrary: a S X L)
  case Nil
  from Nil.prems(5) [symmetric] have "l \<le> a" by auto
  with Nil.prems(6) have "a = l" by simp
  with Nil show ?case by simp
next
  case (Cons i "is")
  let ?n = "NumVertices g"
  let ?R = "[0..<length permutation]"
  let ?inst = "rank_instance ?n permutation"
  let ?src = "rank_source ?n permutation"
  let ?rr = "\<lambda>v r. reverse_reaches Contained g l (?inst r) (?src r) v"
  from Cons.prems(5) [symmetric] have a: "a < l" and i: "i = a" and "is": "is = [Suc a..<l]"
    by (auto simp: upt_eq_Cons_conv)
  define ranks where "ranks = IR ! a"
  from a IR have ranks: "ranks = map (\<lambda>r. (r, ?src r)) (filter (\<lambda>r. ?inst r = a) ?R)"
    by (simp add: ranks_def)
  from a size have len: "length ranks = ?n" by (simp add: ranks_def)
  have srcs: "\<forall>e\<in>set ranks. snd e < ?n"
  proof
    fix e assume "e \<in> set ranks"
    then have "0 < length ranks" by (cases ranks) simp_all
    with len have "0 < ?n" by simp
    with \<open>e \<in> set ranks\<close> show "snd e < ?n"
      by (auto simp: ranks rank_source_def)
  qed
  have js: "[0..<?n] = [0..<length ranks]" by (simp add: len)
  have L0: "\<forall>v<?n. L ! v = take k (map fst (filter (\<lambda>e. reverse_reaches Contained g l a (snd e) v)
                                (take 0 ranks)))"
    using Cons.prems(4) by simp
  from instance_pass_correct [OF sg a srcs Cons.prems(1,3) js L0, of dbg] obtain S1 L1 where
    pass: "instance_pass dbg Contained g k (of_nat l) (of_nat a) ranks [0..<?n] S L
             = Inr (S1, L1)"
    and fs1: "fs_inv ?n S1" and len1: "length L1 = ?n"
    and L1: "\<forall>v<?n. L1 ! v = take k (map fst (filter (\<lambda>e. reverse_reaches Contained g l a (snd e) v)
                                       ranks))"
    by blast
  have L1': "L1 ! v = take k (filter (\<lambda>r. ?inst r = a \<and> ?rr v r) ?R)" if "v < ?n" for v
  proof -
    have "map fst (filter (\<lambda>e. reverse_reaches Contained g l a (snd e) v) ranks)
            = filter (\<lambda>r. reverse_reaches Contained g l a (?src r) v) (filter (\<lambda>r. ?inst r = a) ?R)"
      by (simp add: ranks filter_map comp_def)
    also have "\<dots> = filter (\<lambda>r. ?inst r = a \<and> ?rr v r) ?R"
      by (simp add: conj_commute cong: conj_cong)
    finally show ?thesis using L1 that by simp
  qed
  from merge_sketches_correct [where a = 0 and k = k, OF Cons.prems(2) len1 refl] obtain X2 L2 where
    merge: "merge_sketches k [0..<?n] X L1 = Inr (X2, L2)"
    and len2: "length X2 = ?n" "length L2 = ?n"
    and X2: "\<forall>u<?n. X2 ! u = take k (set_union (X ! u) (L1 ! u))"
    and L2: "\<forall>u<?n. L2 ! u = []"
    by auto
  have inv2: "\<forall>v<?n. X2 ! v = take k (filter (\<lambda>r. ?inst r < Suc a \<and> ?rr v r) ?R)"
  proof (intro allI impI)
    fix v assume v: "v < ?n"
    have "X2 ! v = take k (set_union (take k (filter (\<lambda>r. ?inst r < a \<and> ?rr v r) ?R))
                                     (take k (filter (\<lambda>r. ?inst r = a \<and> ?rr v r) ?R)))"
      using X2 v Cons.prems(7) L1' by simp
    also have "\<dots> = take k (filter (\<lambda>r. (?inst r < a \<and> ?rr v r) \<or> (?inst r = a \<and> ?rr v r)) ?R)"
      by (rule set_union_bottom_k) simp
    also have "(\<lambda>r. (?inst r < a \<and> ?rr v r) \<or> (?inst r = a \<and> ?rr v r))
                 = (\<lambda>r. ?inst r < Suc a \<and> ?rr v r)"
      by (auto simp: less_Suc_eq)
    finally show "X2 ! v = take k (filter (\<lambda>r. ?inst r < Suc a \<and> ?rr v r) ?R)" .
  qed
  from a have "Suc a \<le> l" by simp
  from Cons.IH [OF fs1 len2 L2 "is" this inv2] obtain X' where
    r: "all_instances dbg Contained g k l IR is S1 X2 L2 = Inr X'"
    and res: "length X' = ?n" "\<forall>v<?n. X' ! v = take k (filter (\<lambda>r. ?inst r < l \<and> ?rr v r) ?R)"
    by blast
  have "all_instances dbg Contained g k l IR (i # is) S X L = Inr X'"
    using a i lenIR len pass merge r
    by (simp add: elem_at_def Assert_def ranks_def [symmetric])
  with res show ?case by blast
qed

lemma RunPreprocessing_correct:
  assumes sg: "search_graph Contained g l" and l: "l < 2 ^ 16"
    and dist: "distinct permutation"
    and perm: "set permutation = {0..<NumVertices g * l}"
  shows "\<exists>X. RunPreprocessing dbg Contained g permutation k l = Inr X
           \<and> length X = NumVertices g
           \<and> (\<forall>v<NumVertices g.
                 X ! v = take k (filter (\<lambda>r. reverse_reaches Contained g l
                                          (rank_instance (NumVertices g) permutation r)
                                          (rank_source (NumVertices g) permutation r) v)
                                  [0..<NumVertices g * l]))"
proof -
  let ?n = "NumVertices g"
  let ?R = "[0..<length permutation]"
  let ?inst = "rank_instance ?n permutation"
  let ?src = "rank_source ?n permutation"
  let ?rr = "\<lambda>v r. reverse_reaches Contained g l (?inst r) (?src r) v"
  from sg have n: "?n < 2 ^ 32" by (simp add: search_graph_def)
  from perm have bound: "\<forall>p\<in>set permutation. p < ?n * l" by simp
  from dist perm have N: "length permutation = ?n * l"
    by (metis card_atLeastLessThan diff_zero distinct_card)
  have "\<forall>i<l. replicate l [] ! i = map (\<lambda>r. (r, ?src r)) (filter (\<lambda>r. ?inst r = i) [0..<0])"
    by simp
  from group_ranks_correct [OF bound l n _ refl _ this, of dbg] obtain IR where
    grp: "group_ranks dbg ?n l permutation ?R (replicate l []) = Inr IR"
    and lenIR: "length IR = l"
    and IR: "\<forall>i<l. IR ! i = map (\<lambda>r. (r, ?src r)) (filter (\<lambda>r. ?inst r = i) ?R)"
    by auto
  have size: "\<forall>i<l. length (IR ! i) = ?n"
    using IR instance_size [OF dist perm] by simp
  have X0: "\<forall>v<?n. replicate ?n [] ! v = take k (filter (\<lambda>r. ?inst r < 0 \<and> ?rr v r) ?R)"
    by simp
  from all_instances_correct [OF sg lenIR IR size fs_inv_new _ _ _ refl _ X0, of "replicate ?n []" dbg]
  obtain X where
    run: "all_instances dbg Contained g k l IR [0..<l] (FastSet_new ?n) (replicate ?n [])
            (replicate ?n []) = Inr X"
    and len: "length X = ?n"
    and X: "\<forall>v<?n. X ! v = take k (filter (\<lambda>r. ?inst r < l \<and> ?rr v r) ?R)"
    by auto
  have "RunPreprocessing dbg Contained g permutation k l = Inr X"
    using grp run by (simp add: RunPreprocessing_def)
  moreover have "X ! v = take k (filter (?rr v) [0..<?n * l])" if "v < ?n" for v
  proof -
    have "filter (\<lambda>r. ?inst r < l \<and> ?rr v r) ?R = filter (?rr v) ?R"
    proof (rule filter_cong [OF refl])
      fix r assume "r \<in> set ?R"
      then have "permutation ! r \<in> set permutation" by simp
      with perm have "permutation ! r < l * ?n" by (simp add: mult.commute)
      then have "?inst r < l"
        unfolding rank_instance_def by (rule less_mult_imp_div_less)
      then show "(?inst r < l \<and> ?rr v r) = ?rr v r" by simp
    qed
    with X that show ?thesis by (simp add: N)
  qed
  ultimately show ?thesis using len by blast
qed

subsection \<open>A run on two vertices\<close>

lemma example_graph_built: "ReadFromArcList False 2 [(0, 1)] True True = Inr example_graph"
  by (simp add: ReadFromArcList_def Assert_def elem_at_def put_def Let_def
      numeral_2_eq_2 arc_id_numeral rewire.simps sort_blocks.simps sort_range_def sort_arcs_def arc_less_def
      direction_bucket_def Forward_def Backward_def OtherVertexId_def
      add_outgoing_def add_incoming_def SetOtherVertexId_def SetForwardFlag_def
      SetBackwardFlag_def example_graph_def)

lemma Contained_BINARY_example:
  "Contained_BINARY 31101982 1650000 0 1 0 2 = Inr True"
  "Contained_BINARY 31101982 1650000 0 1 1 2 = Inr False"
  by (simp_all add: Contained_BINARY_def resolution_def Murmur3Hash_def murmur_round_def
      murmur_key_def rotl32_def Let_def)

lemma example_blocks:
  "incident_arcs example_graph 0 = [0x40000001]"
  "incident_arcs example_graph (Suc 0) = [0x80000000]"
  by (simp_all add: incident_arcs_def example_graph_def)

lemma example_scan:
  "backward_scan example_graph 0 = []"
  "backward_scan example_graph (Suc 0) = [0x80000000]"
  by (simp_all add: backward_scan_def FORALL_INCIDENT_ARCS_BACKWARD_def example_blocks
      Backward_def)

lemma example_group:
  "group_ranks True 2 2 [3, 1, 0, 2] [0, 1, 2, 3] [[], []]
     = Inr [[(1, 1), (2, 0)], [(0, 1), (3, 0)]]"
  by (simp add: elem_at_def put_def Assert_def Let_def)

lemma example_run:
  "RunPreprocessing True (Contained_BINARY 31101982 1650000) example_graph [3, 1, 0, 2] 4 2
     = Inr [[1, 2, 3], [0, 1]]"
proof -
  have n: "NumVertices example_graph = 2" by (simp add: example_graph_def)
  have r: "[0..<length [3::nat, 1, 0, 2]] = [0, 1, 2, 3]" by (simp add: upt_rec)
  have u2: "[0..<2] = [0, 1::nat]" by (simp add: upt_rec)
  have rp: "replicate 2 [] = [[], []]" by (simp add: numeral_2_eq_2)
  show ?thesis
    unfolding RunPreprocessing_def n r Let_def u2 rp
    by (simp add: example_group
      sketch_from_source_def FastSet_Clear_def FastSet_Insert_def FastSet_new_def
      FastSet_IsContained_def FastSet_KeyByIndex_def FastSet_Size_def sketch_bfs.simps
      example_scan Contained_BINARY_example elem_at_def put_def Assert_def Let_def
      OtherVertexId_def n u2 rp)
qed

lemma example_search_graph:
  "search_graph (Contained_BINARY 31101982 1650000) example_graph 2"
proof -
  have n: "NumVertices example_graph = 2" by (simp add: example_graph_def)
  show ?thesis
    unfolding search_graph_def n
    by (simp add: less_2_cases_iff example_blocks example_scan Backward_def
        OtherVertexId_def Contained_BINARY_def)
qed

lemma example_arc:
  "instance_arc (Contained_BINARY 31101982 1650000) example_graph 2 0 0 (Suc 0)"
proof -
  have n: "NumVertices example_graph = 2" by (simp add: example_graph_def)
  show ?thesis
    by (simp add: instance_arc_def example_blocks Backward_def OtherVertexId_def
        Contained_BINARY_example n)
qed

subsection \<open>The sketches\<close>

text \<open>
  Claim C1 (as the code has it).  On a graph whose backward scans see all the backward
  arcs (as on sorted blocks), with a permutation of \<open>[0, n * l)\<close>, \<^verbatim>\<open>RunPreprocessing(k, l)\<close> returns, and for every vertex \<open>v\<close> the sketch
  \<open>sketches[v]\<close> is the list of the \<open>k\<close> smallest ranks \<open>r\<close> in \<open>[0, n * l)\<close> whose source
  vertex \<open>permutation[r] mod n\<close> reverse-reaches \<open>v\<close> in the instance
  \<open>permutation[r] div n\<close>; the list is strictly ascending and holds at most \<open>k\<close> ranks.
  The pruning of a vertex whose local sketch holds \<open>k\<close> ranks loses no rank.  The instance
  of a rank is read from the permutation: it is not the quotient of the rank by \<open>n\<close>.
\<close>

theorem RunPreprocessing_bottom_k_sketches:
  assumes "search_graph Contained g l" and "l < 2 ^ 16"
    and "distinct permutation" and "set permutation = {0..<NumVertices g * l}"
  shows "\<exists>X. RunPreprocessing dbg Contained g permutation k l = Inr X
           \<and> length X = NumVertices g
           \<and> (\<forall>v<NumVertices g.
                 X ! v = take k (filter (\<lambda>r. reverse_reaches Contained g l
                                          (rank_instance (NumVertices g) permutation r)
                                          (rank_source (NumVertices g) permutation r) v)
                                  [0..<NumVertices g * l])
               \<and> sorted_wrt (<) (X ! v) \<and> length (X ! v) \<le> k)"
proof -
  from RunPreprocessing_correct [OF assms, of dbg k] obtain X where
    run: "RunPreprocessing dbg Contained g permutation k l = Inr X"
    and len: "length X = NumVertices g"
    and X: "\<forall>v<NumVertices g.
                 X ! v = take k (filter (\<lambda>r. reverse_reaches Contained g l
                                          (rank_instance (NumVertices g) permutation r)
                                          (rank_source (NumVertices g) permutation r) v)
                                  [0..<NumVertices g * l])"
    by blast
  have "sorted_wrt (<) (take k (filter P [0..<m]))" for P and m :: nat
    by (intro sorted_wrt_take sorted_wrt_filter) simp
  with X have "\<forall>v<NumVertices g. sorted_wrt (<) (X ! v) \<and> length (X ! v) \<le> k"
    by simp
  with run len X show ?thesis by blast
qed

text \<open>
  The graph with the arc from 0 to 1, the binary model with the threshold 1650000 at the
  default seed, which keeps the arc in instance 0 and drops it in instance 1, two
  instances, \<open>k = 4\<close> and the permutation \<open>[3, 1, 0, 2]\<close>.  Rank 0 belongs to instance
  \<open>3 div 2 = 1\<close> with the source vertex 1, which vertex 0 does not reach there, and the
  sketch of vertex 0 is \<open>[1, 2, 3]\<close>.  With the instance \<open>r div n\<close> of the rank, rank 0
  would lie in instance 0, where vertex 0 reaches vertex 1, and the sketch of vertex 0
  would be \<open>[0, 1, 2, 3]\<close>.
\<close>

theorem RunPreprocessing_instance_of_rank_counterexample:
  "search_graph (Contained_BINARY 31101982 1650000) example_graph 2
   \<and> distinct [3, 1, 0, 2 :: nat]
   \<and> set [3, 1, 0, 2] = {0..<NumVertices example_graph * 2}
   \<and> RunPreprocessing True (Contained_BINARY 31101982 1650000) example_graph [3, 1, 0, 2] 4 2
       = Inr [[1, 2, 3], [0, 1]]
   \<and> take 4 (filter (\<lambda>r. reverse_reaches (Contained_BINARY 31101982 1650000) example_graph 2
                          (r div NumVertices example_graph)
                          (rank_source (NumVertices example_graph) [3, 1, 0, 2] r) 0)
                [0..<NumVertices example_graph * 2])
       = [0, 1, 2, 3]"
proof -
  let ?C = "Contained_BINARY 31101982 1650000"
  have n: "NumVertices example_graph = 2" by (simp add: example_graph_def)
  have set: "set [3, 1, 0, 2] = {0..<NumVertices example_graph * 2}"
    unfolding n by auto
  have 1: "reverse_reaches ?C example_graph 2 0 (Suc 0) 0"
    unfolding reverse_reaches_def using example_arc by (rule r_into_rtranclp)
  have 2: "reverse_reaches ?C example_graph 2 i 0 0" for i
    by (simp add: reverse_reaches_def)
  have r: "[0..<4] = [0, 1, 2, 3::nat]"
    by (simp add: upt_rec)
  have "take 4 (filter (\<lambda>r. reverse_reaches ?C example_graph 2
                          (r div NumVertices example_graph)
                          (rank_source (NumVertices example_graph) [3, 1, 0, 2] r) 0)
                [0..<NumVertices example_graph * 2])
       = [0, 1, 2, 3]"
    unfolding n by (simp add: r rank_source_def 1 2)
  with example_search_graph set example_run show ?thesis by simp
qed

text \<open>The same run, with the sketches of both vertices as the theorem gives them.\<close>

theorem RunPreprocessing_bottom_k_sketches_witness:
  "search_graph (Contained_BINARY 31101982 1650000) example_graph 2
   \<and> (2::nat) < 2 ^ 16
   \<and> distinct [3, 1, 0, 2 :: nat]
   \<and> set [3, 1, 0, 2] = {0..<NumVertices example_graph * 2}
   \<and> RunPreprocessing True (Contained_BINARY 31101982 1650000) example_graph [3, 1, 0, 2] 4 2
       = Inr [[1, 2, 3], [0, 1]]
   \<and> take 4 (filter (\<lambda>r. reverse_reaches (Contained_BINARY 31101982 1650000) example_graph 2
                          (rank_instance (NumVertices example_graph) [3, 1, 0, 2] r)
                          (rank_source (NumVertices example_graph) [3, 1, 0, 2] r) 0)
                [0..<NumVertices example_graph * 2])
       = [1, 2, 3]
   \<and> take 4 (filter (\<lambda>r. reverse_reaches (Contained_BINARY 31101982 1650000) example_graph 2
                          (rank_instance (NumVertices example_graph) [3, 1, 0, 2] r)
                          (rank_source (NumVertices example_graph) [3, 1, 0, 2] r) 1)
                [0..<NumVertices example_graph * 2])
       = [0, 1]"
proof -
  let ?C = "Contained_BINARY 31101982 1650000"
  have n: "NumVertices example_graph = 2" by (simp add: example_graph_def)
  have l: "(2::nat) < 2 ^ 16" by simp
  have d: "distinct [3, 1, 0, 2 :: nat]" by simp
  have set: "set [3, 1, 0, 2] = {0..<NumVertices example_graph * 2}"
    unfolding n by auto
  from RunPreprocessing_bottom_k_sketches [OF example_search_graph l d set, of True 4]
  obtain X where run: "RunPreprocessing True ?C example_graph [3, 1, 0, 2] 4 2 = Inr X"
    and X: "\<forall>v<NumVertices example_graph.
                 X ! v = take 4 (filter (\<lambda>r. reverse_reaches ?C example_graph 2
                                          (rank_instance (NumVertices example_graph) [3, 1, 0, 2] r)
                                          (rank_source (NumVertices example_graph) [3, 1, 0, 2] r) v)
                                  [0..<NumVertices example_graph * 2])"
    by blast
  from run example_run have "X = [[1, 2, 3], [0, 1]]" by simp
  with X [rule_format, of 0] X [rule_format, of 1] n
  have "take 4 (filter (\<lambda>r. reverse_reaches ?C example_graph 2
                          (rank_instance (NumVertices example_graph) [3, 1, 0, 2] r)
                          (rank_source (NumVertices example_graph) [3, 1, 0, 2] r) 0)
                [0..<NumVertices example_graph * 2]) = [1, 2, 3]"
    and "take 4 (filter (\<lambda>r. reverse_reaches ?C example_graph 2
                          (rank_instance (NumVertices example_graph) [3, 1, 0, 2] r)
                          (rank_source (NumVertices example_graph) [3, 1, 0, 2] r) 1)
                [0..<NumVertices example_graph * 2]) = [0, 1]"
    by simp_all
  with example_search_graph l d set example_run show ?thesis by (intro conjI)
qed

end
